theory Spec2Isabelle
  imports Complex_Main "HOL-Library.Multiset" "HOL-Library.Sublist"
begin

section \<open>ECMAScript values\<close>

text \<open>
  The search optimizer and the advanced filter are plain ECMAScript classes. Their rows are
  objects holding primitives, and the values of a filter condition are primitives or arrays
  of them (the composite filter editor stores strings read from inputs, numbers produced by
  parseFloat, and arrays of those). The value model below covers exactly these: the
  primitives and arrays. Date objects, symbols, BigInts and user objects with their own
  conversion methods are outside the model. An array carries an identity, because strict
  equality compares arrays by reference.

  A number is NaN, an infinity or a finite value. A finite value is kept as the rational it
  denotes: every finite double is a rational, and comparing doubles compares these
  rationals. The two zeros are one value; none of the code below tells them apart.

  A string is a list of characters; a character stands for a UTF-16 code unit below 128.
  Case folding and white space are the ASCII ones.
\<close>

datatype jsnum = NaN | NegInf | Fin rat | PosInf

datatype jsval =
    VUndefined
  | VNull
  | VBool bool
  | VNum jsnum
  | VStr string
  | VArr nat "jsval list"

datatype error = TypeError

text \<open>
  Built-in conversions whose algorithms are long and not part of this repository are taken
  as parameters: Number::toString on a finite number, the numeral scan of parseFloat on a
  string, StringToNumber, and the time value of \<^verbatim>\<open>new Date(string)\<close> (NaN for an
  invalid date).
\<close>

record builtins =
  NumberToString :: "rat \<Rightarrow> string"
  StrToFloat :: "string \<Rightarrow> jsnum"
  StringToNumber :: "string \<Rightarrow> jsnum"
  DateParse :: "string \<Rightarrow> jsnum"

subsection \<open>Numbers\<close>

text \<open>\<^verbatim>\<open>a < b\<close> on numbers; every comparison with NaN is false.\<close>

fun num_lt :: "jsnum \<Rightarrow> jsnum \<Rightarrow> bool" where
  "num_lt NaN _ = False"
| "num_lt _ NaN = False"
| "num_lt _ NegInf = False"
| "num_lt NegInf _ = True"
| "num_lt PosInf _ = False"
| "num_lt (Fin a) PosInf = True"
| "num_lt (Fin a) (Fin b) = (a < b)"

text \<open>\<^verbatim>\<open>a <= b\<close> on numbers: false with NaN on either side, otherwise not \<^verbatim>\<open>b < a\<close>.\<close>

definition num_le :: "jsnum \<Rightarrow> jsnum \<Rightarrow> bool" where
  "num_le a b = (if a = NaN then False else if b = NaN then False else \<not> num_lt b a)"

definition num_to_string :: "builtins \<Rightarrow> jsnum \<Rightarrow> string" where
  "num_to_string B n =
     (case n of NaN \<Rightarrow> ''NaN'' | NegInf \<Rightarrow> ''-Infinity'' | PosInf \<Rightarrow> ''Infinity''
      | Fin r \<Rightarrow> NumberToString B r)"

subsection \<open>Strings\<close>

definition toLowerCase_char :: "char \<Rightarrow> char" where
  "toLowerCase_char c =
     (let n = (of_char c :: nat) in if 65 \<le> n \<and> n \<le> 90 then char_of (n + 32) else c)"

definition toLowerCase :: "string \<Rightarrow> string" where
  "toLowerCase s = map toLowerCase_char s"

definition is_ws :: "char \<Rightarrow> bool" where
  "is_ws c = ((of_char c :: nat) \<in> {9, 10, 11, 12, 13, 32})"

definition trim :: "string \<Rightarrow> string" where
  "trim s = rev (dropWhile is_ws (rev (dropWhile is_ws s)))"

definition startsWith :: "string \<Rightarrow> string \<Rightarrow> bool" where
  "startsWith s p = (take (length p) s = p)"

text \<open>\<^verbatim>\<open>hay.includes(needle)\<close>: the needle occurs at some position of the hay.\<close>

fun str_includes :: "string \<Rightarrow> string \<Rightarrow> bool" where
  "str_includes [] needle = (needle = [])"
| "str_includes (c # hay) needle = (startsWith (c # hay) needle \<or> str_includes hay needle)"

text \<open>\<^verbatim>\<open>parts.join(sep)\<close>.\<close>

fun join :: "string \<Rightarrow> string list \<Rightarrow> string" where
  "join sep [] = []"
| "join sep [p] = p"
| "join sep (p # q # ps) = p @ sep @ join sep (q # ps)"

subsection \<open>Conversions\<close>

fun truthy :: "jsval \<Rightarrow> bool" where
  "truthy VUndefined = False"
| "truthy VNull = False"
| "truthy (VBool b) = b"
| "truthy (VNum n) = (n \<noteq> NaN \<and> n \<noteq> Fin 0)"
| "truthy (VStr s) = (s \<noteq> [])"
| "truthy (VArr a xs) = True"

text \<open>\<^verbatim>\<open>v || ''\<close>.\<close>

definition or_empty :: "jsval \<Rightarrow> jsval" where
  "or_empty v = (if truthy v then v else VStr [])"

text \<open>
  \<^verbatim>\<open>String(v)\<close>. An array is joined with commas, an undefined or null element giving
  the empty string.
\<close>

fun ToString :: "builtins \<Rightarrow> jsval \<Rightarrow> string"
  and join_elements :: "builtins \<Rightarrow> jsval list \<Rightarrow> string" where
  "ToString B VUndefined = ''undefined''"
| "ToString B VNull = ''null''"
| "ToString B (VBool b) = (if b then ''true'' else ''false'')"
| "ToString B (VNum n) = num_to_string B n"
| "ToString B (VStr s) = s"
| "ToString B (VArr a xs) = join_elements B xs"
| "join_elements B [] = []"
| "join_elements B [x] =
     (if x = VUndefined \<or> x = VNull then [] else ToString B x)"
| "join_elements B (x # y # ys) =
     (if x = VUndefined \<or> x = VNull then [] else ToString B x) @ '','' @ join_elements B (y # ys)"

text \<open>
  \<^verbatim>\<open>parseFloat(v)\<close> converts its argument to a string and scans a decimal numeral at its
  start. For a number the two steps give the number back (Number::toString round-trips),
  so the model returns it directly.
\<close>

definition parseFloat :: "builtins \<Rightarrow> jsval \<Rightarrow> jsnum" where
  "parseFloat B v = (case v of VNum n \<Rightarrow> n | _ \<Rightarrow> StrToFloat B (ToString B v))"

text \<open>ToNumber, as applied to the right operand of a comparison whose left operand is a number.\<close>

definition ToNumber :: "builtins \<Rightarrow> jsval \<Rightarrow> jsnum" where
  "ToNumber B v =
     (case v of
        VUndefined \<Rightarrow> NaN
      | VNull \<Rightarrow> Fin 0
      | VBool b \<Rightarrow> Fin (if b then 1 else 0)
      | VNum n \<Rightarrow> n
      | VStr s \<Rightarrow> StringToNumber B s
      | VArr a xs \<Rightarrow> StringToNumber B (ToString B v))"

text \<open>TimeClip: a time value is an integral number of milliseconds of magnitude at most 8.64e15.\<close>

definition TimeClip :: "jsnum \<Rightarrow> jsnum" where
  "TimeClip n =
     (case n of
        Fin r \<Rightarrow>
          (if \<bar>r\<bar> > 8640000000000000 then NaN
           else Fin (of_int (if 0 \<le> r then \<lfloor>r\<rfloor> else \<lceil>r\<rceil>)))
      | _ \<Rightarrow> NaN)"

text \<open>The time value of \<^verbatim>\<open>new Date(v)\<close>: a string (or an array, through its string) is parsed.\<close>

definition new_Date :: "builtins \<Rightarrow> jsval \<Rightarrow> jsnum" where
  "new_Date B v =
     (case v of
        VStr s \<Rightarrow> DateParse B s
      | VArr a xs \<Rightarrow> DateParse B (ToString B v)
      | _ \<Rightarrow> TimeClip (ToNumber B v))"

text \<open>\<^verbatim>\<open>a === b\<close>.\<close>

fun strict_equals :: "jsval \<Rightarrow> jsval \<Rightarrow> bool" where
  "strict_equals VUndefined VUndefined = True"
| "strict_equals VNull VNull = True"
| "strict_equals (VBool a) (VBool b) = (a = b)"
| "strict_equals (VNum a) (VNum b) = (a \<noteq> NaN \<and> a = b)"
| "strict_equals (VStr a) (VStr b) = (a = b)"
| "strict_equals (VArr a xs) (VArr b ys) = (a = b)"
| "strict_equals _ _ = False"

text \<open>SameValueZero, the equality of \<^verbatim>\<open>Array.prototype.includes\<close>: as \<^verbatim>\<open>===\<close>, but NaN equals NaN.\<close>

fun same_value_zero :: "jsval \<Rightarrow> jsval \<Rightarrow> bool" where
  "same_value_zero (VNum a) (VNum b) = (a = b)"
| "same_value_zero a b = strict_equals a b"

text \<open>
  \<^verbatim>\<open>const [a, b] = v\<close>: an array gives its first two elements, a string its first two
  characters, a missing one is undefined; any other value is not iterable and the
  destructuring throws a TypeError.
\<close>

definition nth_or_undefined :: "jsval list \<Rightarrow> nat \<Rightarrow> jsval" where
  "nth_or_undefined xs i = (if i < length xs then xs ! i else VUndefined)"

definition destructure2 :: "jsval \<Rightarrow> error + (jsval \<times> jsval)" where
  "destructure2 v =
     (case v of
        VArr a xs \<Rightarrow> Inr (nth_or_undefined xs 0, nth_or_undefined xs 1)
      | VStr s \<Rightarrow> Inr (nth_or_undefined (map (\<lambda>c. VStr [c]) s) 0,
                         nth_or_undefined (map (\<lambda>c. VStr [c]) s) 1)
      | _ \<Rightarrow> Inl TypeError)"

section \<open>Rows\<close>

text \<open>A row is an object: its own properties in order. Reading a missing property gives undefined.\<close>

type_synonym row = "(string \<times> jsval) list"

definition row_get :: "row \<Rightarrow> string \<Rightarrow> jsval" where
  "row_get r f = (case map_of r f of None \<Rightarrow> VUndefined | Some v \<Rightarrow> v)"

section \<open>FilterCondition\<close>

record FilterCondition =
  field :: string
  operator :: string
  cond_value :: jsval

text \<open>The constructor stores its three arguments.\<close>

definition FilterCondition_new :: "string \<Rightarrow> string \<Rightarrow> jsval \<Rightarrow> FilterCondition" where
  "FilterCondition_new f op v = \<lparr>field = f, operator = op, cond_value = v\<rparr>"

definition FilterCondition_matches :: "builtins \<Rightarrow> FilterCondition \<Rightarrow> row \<Rightarrow> error + bool" where
  "FilterCondition_matches B c r =
     (let rowValue = row_get r (field c); op = operator c; v = cond_value c in
      if op = ''eq'' then Inr (strict_equals rowValue v)
      else if op = ''contains'' then
        Inr (str_includes (toLowerCase (ToString B (or_empty rowValue))) (toLowerCase (ToString B v)))
      else if op = ''gt'' then Inr (num_lt (parseFloat B v) (parseFloat B rowValue))
      else if op = ''gte'' then Inr (num_le (parseFloat B v) (parseFloat B rowValue))
      else if op = ''lt'' then Inr (num_lt (parseFloat B rowValue) (parseFloat B v))
      else if op = ''lte'' then Inr (num_le (parseFloat B rowValue) (parseFloat B v))
      else if op = ''between'' then
        (case destructure2 v of
           Inl e \<Rightarrow> Inl e
         | Inr (mn, mx) \<Rightarrow>
             Inr (num_le (ToNumber B mn) (parseFloat B rowValue)
                  \<and> num_le (parseFloat B rowValue) (ToNumber B mx)))
      else if op = ''in'' then
        Inr (case v of VArr a xs \<Rightarrow> list_ex (same_value_zero rowValue) xs | _ \<Rightarrow> False)
      else if op = ''date-between'' then
        (case destructure2 v of
           Inl e \<Rightarrow> Inl e
         | Inr (startDate, endDate) \<Rightarrow>
             (let itemDate = new_Date B rowValue in
              Inr (num_le (ToNumber B startDate) itemDate \<and> num_le itemDate (ToNumber B endDate))))
      else Inr True)"

section \<open>CompositeFilter\<close>

text \<open>The counters are ECMAScript numbers that only ever grow by one; they are naturals here.\<close>

record CompositeFilter =
  conditions :: "FilterCondition list"
  logic :: string
  evaluations :: nat
  shortCircuits :: nat
  cacheHits :: nat

definition CompositeFilter_new :: "string \<Rightarrow> CompositeFilter" where
  "CompositeFilter_new lg =
     \<lparr>conditions = [], logic = lg, evaluations = 0, shortCircuits = 0, cacheHits = 0\<rparr>"

definition CompositeFilter_addCondition :: "CompositeFilter \<Rightarrow> FilterCondition \<Rightarrow> CompositeFilter" where
  "CompositeFilter_addCondition cf c = cf\<lparr>conditions := conditions cf @ [c]\<rparr>"

text \<open>The AND loop: the first condition that fails (or throws) ends it.\<close>

fun and_loop :: "builtins \<Rightarrow> FilterCondition list \<Rightarrow> row \<Rightarrow> error + bool" where
  "and_loop B [] r = Inr True"
| "and_loop B (c # cs) r =
     (case FilterCondition_matches B c r of
        Inl e \<Rightarrow> Inl e
      | Inr b \<Rightarrow> if \<not> b then Inr False else and_loop B cs r)"

text \<open>The OR loop: the first condition that holds (or throws) ends it.\<close>

fun or_loop :: "builtins \<Rightarrow> FilterCondition list \<Rightarrow> row \<Rightarrow> error + bool" where
  "or_loop B [] r = Inr False"
| "or_loop B (c # cs) r =
     (case FilterCondition_matches B c r of
        Inl e \<Rightarrow> Inl e
      | Inr b \<Rightarrow> if b then Inr True else or_loop B cs r)"

text \<open>
  \<^verbatim>\<open>matches(row)\<close> returns the outcome and the filter with its counters updated. A
  condition that throws leaves the increment of \<^verbatim>\<open>evaluations\<close> in place.
\<close>

definition CompositeFilter_matches ::
  "builtins \<Rightarrow> CompositeFilter \<Rightarrow> row \<Rightarrow> (error + bool) \<times> CompositeFilter" where
  "CompositeFilter_matches B cf r =
     (let cf1 = cf\<lparr>evaluations := evaluations cf + 1\<rparr> in
      if conditions cf1 = [] then (Inr True, cf1)
      else if logic cf1 = ''AND'' then
        (case and_loop B (conditions cf1) r of
           Inl e \<Rightarrow> (Inl e, cf1)
         | Inr b \<Rightarrow>
             if b then (Inr True, cf1)
             else (Inr False, cf1\<lparr>shortCircuits := shortCircuits cf1 + 1\<rparr>))
      else (or_loop B (conditions cf1) r, cf1))"

text \<open>
  Calling \<^verbatim>\<open>matches\<close> on each row of a list in turn, as
  \<^verbatim>\<open>rows.filter(row => filter.matches(row))\<close> does: the outcomes in order and the filter
  afterwards. The first call that throws ends the pass.
\<close>

fun matches_each ::
  "builtins \<Rightarrow> CompositeFilter \<Rightarrow> row list \<Rightarrow> (error + bool list) \<times> CompositeFilter" where
  "matches_each B cf [] = (Inr [], cf)"
| "matches_each B cf (r # rs) =
     (case CompositeFilter_matches B cf r of
        (Inl e, cf1) \<Rightarrow> (Inl e, cf1)
      | (Inr b, cf1) \<Rightarrow>
          (case matches_each B cf1 rs of
             (Inl e, cf2) \<Rightarrow> (Inl e, cf2)
           | (Inr bs, cf2) \<Rightarrow> (Inr (b # bs), cf2)))"

section \<open>Map and Set\<close>

text \<open>
  An ECMAScript Map keeps its entries in insertion order: setting a present key replaces the
  value in place, setting a new key appends. A Set keeps its elements in insertion order
  and adding a present element changes nothing.
\<close>

definition Map_get :: "('k \<times> 'v) list \<Rightarrow> 'k \<Rightarrow> 'v option" where
  "Map_get m k = map_of m k"

definition Map_has :: "('k \<times> 'v) list \<Rightarrow> 'k \<Rightarrow> bool" where
  "Map_has m k = (case map_of m k of None \<Rightarrow> False | Some v \<Rightarrow> True)"

fun Map_set :: "('k \<times> 'v) list \<Rightarrow> 'k \<Rightarrow> 'v \<Rightarrow> ('k \<times> 'v) list" where
  "Map_set [] k v = [(k, v)]"
| "Map_set (e # m) k v = (if fst e = k then (k, v) # m else e # Map_set m k v)"

definition Map_delete :: "('k \<times> 'v) list \<Rightarrow> 'k \<Rightarrow> ('k \<times> 'v) list" where
  "Map_delete m k = filter (\<lambda>e. fst e \<noteq> k) m"

definition Set_add :: "'a \<Rightarrow> 'a list \<Rightarrow> 'a list" where
  "Set_add x s = (if x \<in> set s then s else s @ [x])"

text \<open>\<^verbatim>\<open>new Set(iterable)\<close>.\<close>

definition Set_new :: "'a list \<Rightarrow> 'a list" where
  "Set_new xs = fold Set_add xs []"

section \<open>InvertedIndexBuilder\<close>

record column =
  key :: string
  coltype :: string

record InvertedIndexBuilder =
  index :: "(string \<times> nat list) list"
  documentFrequency :: "(nat \<times> nat) list"

definition InvertedIndexBuilder_new :: InvertedIndexBuilder where
  "InvertedIndexBuilder_new = \<lparr>index = [], documentFrequency = []\<rparr>"

text \<open>
  \<^verbatim>\<open>tokenize(text)\<close>: every character, every substring of 2 to 4 characters, and the whole
  text, collected in a Set and returned as an array.
\<close>

definition tokenize :: "string \<Rightarrow> string list" where
  "tokenize text =
     (if text = [] then []
      else
        (let tokens1 = fold (\<lambda>i tokens. Set_add [text ! i] tokens) [0 ..< length text] [];
             tokens2 =
               fold (\<lambda>len tokens.
                       fold (\<lambda>i tokens. Set_add (take len (drop i text)) tokens)
                         [0 ..< length text - len + 1] tokens)
                 (takeWhile (\<lambda>len. len \<le> 4 \<and> len \<le> length text) [2 ..< 5]) tokens1;
             tokens3 = (if length text > 0 then Set_add text tokens2 else tokens2)
         in tokens3))"

text \<open>The value a column of a row is indexed under: \<^verbatim>\<open>String(row[col.key] || '').toLowerCase().trim()\<close>.\<close>

definition indexed_value :: "builtins \<Rightarrow> row \<Rightarrow> column \<Rightarrow> string" where
  "indexed_value B r col = trim (toLowerCase (ToString B (or_empty (row_get r (key col)))))"

text \<open>The body of \<^verbatim>\<open>tokens.forEach\<close>: the token joins the row's keywords and the row joins the token's set.\<close>

definition add_token ::
  "nat \<Rightarrow> string \<Rightarrow> string list \<times> (string \<times> nat list) list
     \<Rightarrow> string list \<times> (string \<times> nat list) list" where
  "add_token rowIndex token st =
     (let keywords = Set_add token (fst st);
          idx = snd st;
          idx1 = (if \<not> Map_has idx token then Map_set idx token [] else idx)
      in (keywords,
          (case Map_get idx1 token of
             Some rows \<Rightarrow> Map_set idx1 token (Set_add rowIndex rows)
           | None \<Rightarrow> idx1)))"

text \<open>The body of \<^verbatim>\<open>data.forEach\<close>.\<close>

definition build_row ::
  "builtins \<Rightarrow> column list \<Rightarrow> nat \<times> row \<Rightarrow> InvertedIndexBuilder \<Rightarrow> InvertedIndexBuilder" where
  "build_row B cols ir ib =
     (let st = fold (\<lambda>col st. fold (add_token (fst ir)) (tokenize (indexed_value B (snd ir) col)) st)
                 cols ([], index ib)
      in \<lparr>index = snd st,
          documentFrequency = Map_set (documentFrequency ib) (fst ir) (length (fst st))\<rparr>)"

text \<open>\<^verbatim>\<open>build(data, columns)\<close> clears both maps first, so the outcome does not depend on the builder it is called on.\<close>

definition InvertedIndexBuilder_build ::
  "builtins \<Rightarrow> row list \<Rightarrow> column list \<Rightarrow> InvertedIndexBuilder" where
  "InvertedIndexBuilder_build B rows cols =
     fold (build_row B cols) (zip [0 ..< length rows] rows) InvertedIndexBuilder_new"

definition InvertedIndexBuilder_search :: "InvertedIndexBuilder \<Rightarrow> string \<Rightarrow> nat list" where
  "InvertedIndexBuilder_search ib keyword =
     (let cleanKeyword = trim (toLowerCase keyword) in
      if cleanKeyword = [] then []
      else (case Map_get (index ib) cleanKeyword of Some rows \<Rightarrow> rows | None \<Rightarrow> []))"

section \<open>SearchCache\<close>

text \<open>
  An entry also carries a time stamp that no decision reads; it is left out, as are the
  elapsed times of the optimizer.
\<close>

record CacheEntry =
  entry_results :: "nat list"
  hitCount :: nat

record SearchCache =
  cache :: "(string \<times> CacheEntry) list"
  maxSize :: nat
  hits :: nat
  misses :: nat

definition SearchCache_new :: "nat \<Rightarrow> SearchCache" where
  "SearchCache_new n = \<lparr>cache = [], maxSize = n, hits = 0, misses = 0\<rparr>"

definition SearchCache_get :: "SearchCache \<Rightarrow> string \<Rightarrow> nat list option \<times> SearchCache" where
  "SearchCache_get sc keyword =
     (let cleanKeyword = trim (toLowerCase keyword) in
      case Map_get (cache sc) cleanKeyword of
        Some entry \<Rightarrow>
          (Some (entry_results entry),
           sc\<lparr>cache := Map_set (cache sc) cleanKeyword (entry\<lparr>hitCount := hitCount entry + 1\<rparr>),
              hits := hits sc + 1\<rparr>)
      | None \<Rightarrow> (None, sc\<lparr>misses := misses sc + 1\<rparr>))"

text \<open>
  The eviction scan: \<^verbatim>\<open>minHits\<close> starts at Infinity (None) and \<^verbatim>\<open>lruKey\<close> at null (None);
  an entry with strictly fewer hits replaces both.
\<close>

definition scan_step ::
  "string \<times> CacheEntry \<Rightarrow> nat option \<times> string option \<Rightarrow> nat option \<times> string option" where
  "scan_step e st =
     (if (case fst st of None \<Rightarrow> True | Some minHits \<Rightarrow> hitCount (snd e) < minHits)
      then (Some (hitCount (snd e)), Some (fst e))
      else st)"

text \<open>\<^verbatim>\<open>if (lruKey)\<close> holds for a key that is neither null nor the empty string.\<close>

definition SearchCache_set :: "SearchCache \<Rightarrow> string \<Rightarrow> nat list \<Rightarrow> SearchCache" where
  "SearchCache_set sc keyword res =
     (let cleanKeyword = trim (toLowerCase keyword);
          c1 = (if length (cache sc) \<ge> maxSize sc \<and> \<not> Map_has (cache sc) cleanKeyword then
                  (case snd (fold scan_step (cache sc) (None, None)) of
                     Some lruKey \<Rightarrow> if lruKey \<noteq> [] then Map_delete (cache sc) lruKey else cache sc
                   | None \<Rightarrow> cache sc)
                else cache sc)
      in sc\<lparr>cache := Map_set c1 cleanKeyword \<lparr>entry_results = Set_new res, hitCount = 0\<rparr>\<rparr>)"

section \<open>SearchOptimizer\<close>

record SearchOptimizer =
  indexBuilder :: InvertedIndexBuilder
  searchCache :: SearchCache
  data :: "row list"
  columns :: "column list"
  totalSearches :: nat

record SearchResult =
  results :: "row list"
  source :: string

record IncrementalResult =
  inc_results :: "row list"
  inc_source :: "string option"
  isIncremental :: bool

definition SearchOptimizer_new :: SearchOptimizer where
  "SearchOptimizer_new =
     \<lparr>indexBuilder = InvertedIndexBuilder_new, searchCache = SearchCache_new 20,
      data = [], columns = [], totalSearches = 0\<rparr>"

definition initialize :: "builtins \<Rightarrow> SearchOptimizer \<Rightarrow> row list \<Rightarrow> column list \<Rightarrow> SearchOptimizer" where
  "initialize B so rows cols =
     so\<lparr>data := rows, columns := cols, indexBuilder := InvertedIndexBuilder_build B rows cols\<rparr>"

definition indexToResults :: "SearchOptimizer \<Rightarrow> nat list \<Rightarrow> row list" where
  "indexToResults so indices = map (\<lambda>i. data so ! i) (filter (\<lambda>i. i < length (data so)) indices)"

text \<open>A cached result is a Set object, which is truthy even when empty: a present key always takes the cache branch.\<close>

definition search :: "SearchOptimizer \<Rightarrow> string \<Rightarrow> SearchResult \<times> SearchOptimizer" where
  "search so keyword =
     (case SearchCache_get (searchCache so) keyword of
        (Some cachedResults, sc1) \<Rightarrow>
          (\<lparr>results = indexToResults so cachedResults, source = ''cache''\<rparr>,
           so\<lparr>searchCache := sc1\<rparr>)
      | (None, sc1) \<Rightarrow>
          (let indexResults = InvertedIndexBuilder_search (indexBuilder so) keyword in
           (\<lparr>results = indexToResults so indexResults, source = ''index''\<rparr>,
            so\<lparr>searchCache := SearchCache_set sc1 keyword indexResults,
               totalSearches := totalSearches so + 1\<rparr>)))"

text \<open>
  \<^verbatim>\<open>rowContains(row, keyword)\<close>. The row is \<^verbatim>\<open>this.data[rowIndex]\<close>, undefined (None) for an
  index past the end; reading a property of undefined throws, which happens as soon as
  there is a column to look at.
\<close>

definition rowContains :: "builtins \<Rightarrow> column list \<Rightarrow> row option \<Rightarrow> string \<Rightarrow> error + bool" where
  "rowContains B cols ro keyword =
     (case cols of
        [] \<Rightarrow> Inr False
      | c # cs \<Rightarrow>
          (case ro of
             None \<Rightarrow> Inl TypeError
           | Some r \<Rightarrow>
               Inr (list_ex (\<lambda>col. str_includes (toLowerCase (ToString B (or_empty (row_get r (key col)))))
                                     keyword) cols)))"

text \<open>The body of \<^verbatim>\<open>prevResults.forEach\<close>, stopping at the first row that throws.\<close>

fun rescan :: "builtins \<Rightarrow> SearchOptimizer \<Rightarrow> string \<Rightarrow> nat list \<Rightarrow> nat list \<Rightarrow> error + nat list" where
  "rescan B so keyword [] newResults = Inr newResults"
| "rescan B so keyword (rowIndex # rest) newResults =
     (case rowContains B (columns so)
             (if rowIndex < length (data so) then Some (data so ! rowIndex) else None) keyword of
        Inl e \<Rightarrow> Inl e
      | Inr b \<Rightarrow> rescan B so keyword rest (if b then Set_add rowIndex newResults else newResults))"

definition incrementalSearch ::
  "builtins \<Rightarrow> SearchOptimizer \<Rightarrow> string \<Rightarrow> string
     \<Rightarrow> (error + IncrementalResult) \<times> SearchOptimizer" where
  "incrementalSearch B so prevKeyword newKeyword =
     (let cleanPrev = trim (toLowerCase prevKeyword);
          cleanNew = trim (toLowerCase newKeyword) in
      if \<not> startsWith cleanNew cleanPrev \<or> length cleanPrev = 0 then
        (case search so newKeyword of
           (r, so1) \<Rightarrow>
             (Inr \<lparr>inc_results = results r, inc_source = Some (source r), isIncremental = False\<rparr>, so1))
      else
        (case SearchCache_get (searchCache so) prevKeyword of
           (None, sc1) \<Rightarrow>
             (case search (so\<lparr>searchCache := sc1\<rparr>) newKeyword of
                (r, so1) \<Rightarrow>
                  (Inr \<lparr>inc_results = results r, inc_source = Some (source r), isIncremental = False\<rparr>,
                   so1))
         | (Some prevResults, sc1) \<Rightarrow>
             (case rescan B so cleanNew prevResults [] of
                Inl e \<Rightarrow> (Inl e, so\<lparr>searchCache := sc1\<rparr>)
              | Inr newResults \<Rightarrow>
                  (Inr \<lparr>inc_results = indexToResults so newResults, inc_source = None,
                        isIncremental = True\<rparr>,
                   so\<lparr>searchCache := SearchCache_set sc1 newKeyword newResults,
                      totalSearches := totalSearches so + 1\<rparr>))))"

section \<open>AdvancedFilter\<close>

text \<open>
  \<^verbatim>\<open>JSON.stringify(v)\<close> as it appears inside a template literal: undefined at the top
  prints as the word undefined, inside an array as null; a number that is not finite
  prints as null; a string is quoted and escaped.
\<close>

definition hex_digit :: "nat \<Rightarrow> char" where
  "hex_digit d = (if d < 10 then char_of (48 + d) else char_of (87 + d))"

definition json_escape :: "char \<Rightarrow> string" where
  "json_escape c =
     (let n = (of_char c :: nat) in
      if n = 34 then [CHR 0x5C, CHR 0x22]
      else if n = 92 then [CHR 0x5C, CHR 0x5C]
      else if n = 8 then [CHR 0x5C, CHR ''b'']
      else if n = 12 then [CHR 0x5C, CHR ''f'']
      else if n = 10 then [CHR 0x5C, CHR ''n'']
      else if n = 13 then [CHR 0x5C, CHR ''r'']
      else if n = 9 then [CHR 0x5C, CHR ''t'']
      else if n < 32 then [CHR 0x5C, CHR ''u'', CHR ''0'', CHR ''0'', hex_digit (n div 16), hex_digit (n mod 16)]
      else [c])"

definition json_quote :: "string \<Rightarrow> string" where
  "json_quote s = [CHR 0x22] @ concat (map json_escape s) @ [CHR 0x22]"

fun JSON_stringify :: "builtins \<Rightarrow> jsval \<Rightarrow> string"
  and JSON_elements :: "builtins \<Rightarrow> jsval list \<Rightarrow> string" where
  "JSON_stringify B VUndefined = ''undefined''"
| "JSON_stringify B VNull = ''null''"
| "JSON_stringify B (VBool b) = (if b then ''true'' else ''false'')"
| "JSON_stringify B (VNum n) = (case n of Fin r \<Rightarrow> NumberToString B r | _ \<Rightarrow> ''null'')"
| "JSON_stringify B (VStr s) = json_quote s"
| "JSON_stringify B (VArr a xs) = ''['' @ JSON_elements B xs @ '']''"
| "JSON_elements B [] = []"
| "JSON_elements B [x] = (if x = VUndefined then ''null'' else JSON_stringify B x)"
| "JSON_elements B (x # y # ys) =
     (if x = VUndefined then ''null'' else JSON_stringify B x) @ '','' @ JSON_elements B (y # ys)"

text \<open>What \<^verbatim>\<open>filter\<close> returns and caches; the elapsed time is left out.\<close>

record FilterResult =
  fr_results :: "row list"
  fr_count :: nat

text \<open>
  A date range holds the time values of its two Date objects, a numeric range the two
  values it was given. The templates of predefined filters hold functions and take no part
  in \<^verbatim>\<open>filter\<close> or in the cache key; they are left out.
\<close>

record AdvancedFilter =
  compositeFilter :: CompositeFilter
  columnFilters :: "(string \<times> jsval list) list"
  dateRanges :: "(string \<times> jsnum \<times> jsnum) list"
  numericRanges :: "(string \<times> jsval \<times> jsval) list"
  filterResults :: "(string \<times> FilterResult) list"
  totalFilters :: nat
  filterCacheHits :: nat
  filterCacheMisses :: nat

definition AdvancedFilter_new :: AdvancedFilter where
  "AdvancedFilter_new =
     \<lparr>compositeFilter = CompositeFilter_new ''AND'', columnFilters = [], dateRanges = [],
      numericRanges = [], filterResults = [], totalFilters = 0, filterCacheHits = 0,
      filterCacheMisses = 0\<rparr>"

text \<open>\<^verbatim>\<open>addColumnFilter(field, values)\<close> does nothing unless \<^verbatim>\<open>values\<close> is a non-empty array.\<close>

definition addColumnFilter :: "AdvancedFilter \<Rightarrow> string \<Rightarrow> jsval \<Rightarrow> AdvancedFilter" where
  "addColumnFilter af f vals =
     (case vals of
        VArr a xs \<Rightarrow>
          if length xs > 0
          then af\<lparr>columnFilters := Map_set (columnFilters af) f xs, totalFilters := totalFilters af + 1\<rparr>
          else af
      | _ \<Rightarrow> af)"

text \<open>\<^verbatim>\<open>addDateRange(field, startDate, endDate)\<close> takes two Date objects, given by their time values.\<close>

definition addDateRange :: "AdvancedFilter \<Rightarrow> string \<Rightarrow> jsnum \<Rightarrow> jsnum \<Rightarrow> AdvancedFilter" where
  "addDateRange af f startDate endDate =
     af\<lparr>dateRanges := Map_set (dateRanges af) f (startDate, endDate),
        totalFilters := totalFilters af + 1\<rparr>"

definition addNumericRange :: "AdvancedFilter \<Rightarrow> string \<Rightarrow> jsval \<Rightarrow> jsval \<Rightarrow> AdvancedFilter" where
  "addNumericRange af f mn mx =
     af\<lparr>numericRanges := Map_set (numericRanges af) f (mn, mx),
        totalFilters := totalFilters af + 1\<rparr>"

definition addCondition :: "AdvancedFilter \<Rightarrow> string \<Rightarrow> string \<Rightarrow> jsval \<Rightarrow> AdvancedFilter" where
  "addCondition af f op v =
     af\<lparr>compositeFilter :=
          CompositeFilter_addCondition (compositeFilter af) (FilterCondition_new f op v),
        totalFilters := totalFilters af + 1\<rparr>"

definition generateCacheKey :: "builtins \<Rightarrow> AdvancedFilter \<Rightarrow> string" where
  "generateCacheKey B af =
     join ''|''
       (map (\<lambda>c. field c @ '':'' @ operator c @ '':'' @ JSON_stringify B (cond_value c))
          (conditions (compositeFilter af))
        @ map (\<lambda>e. fst e @ '':in:'' @ JSON_stringify B (VArr 0 (snd e))) (columnFilters af)
        @ map (\<lambda>e. fst e @ '':date-between:'' @ num_to_string B (fst (snd e)) @ ''-''
                     @ num_to_string B (snd (snd e))) (dateRanges af)
        @ map (\<lambda>e. fst e @ '':numeric:'' @ ToString B (fst (snd e)) @ ''-''
                     @ ToString B (snd (snd e))) (numericRanges af))"

text \<open>
  The composite stage of \<^verbatim>\<open>filter\<close>: the rows the composite filter matches, in order,
  with the filter's counters updated; the first row on which it throws ends the stage.
\<close>

fun filter_composite ::
  "builtins \<Rightarrow> CompositeFilter \<Rightarrow> row list \<Rightarrow> (error + row list) \<times> CompositeFilter" where
  "filter_composite B cf [] = (Inr [], cf)"
| "filter_composite B cf (r # rs) =
     (case CompositeFilter_matches B cf r of
        (Inl e, cf1) \<Rightarrow> (Inl e, cf1)
      | (Inr b, cf1) \<Rightarrow>
          (case filter_composite B cf1 rs of
             (Inl e, cf2) \<Rightarrow> (Inl e, cf2)
           | (Inr kept, cf2) \<Rightarrow> (Inr (if b then r # kept else kept), cf2)))"

definition filter_columns :: "(string \<times> jsval list) list \<Rightarrow> row list \<Rightarrow> row list" where
  "filter_columns cfs rows =
     fold (\<lambda>e rs. filter (\<lambda>r. list_ex (same_value_zero (row_get r (fst e))) (snd e)) rs) cfs rows"

definition filter_dates :: "builtins \<Rightarrow> (string \<times> jsnum \<times> jsnum) list \<Rightarrow> row list \<Rightarrow> row list" where
  "filter_dates B drs rows =
     fold (\<lambda>e rs. filter (\<lambda>r. let itemDate = new_Date B (row_get r (fst e)) in
                                num_le (fst (snd e)) itemDate \<and> num_le itemDate (snd (snd e))) rs)
       drs rows"

definition filter_numeric :: "builtins \<Rightarrow> (string \<times> jsval \<times> jsval) list \<Rightarrow> row list \<Rightarrow> row list" where
  "filter_numeric B nrs rows =
     fold (\<lambda>e rs. filter (\<lambda>r. let v = parseFloat B (row_get r (fst e)) in
                                v \<noteq> NaN \<and> num_le (ToNumber B (fst (snd e))) v
                                \<and> num_le v (ToNumber B (snd (snd e)))) rs)
       nrs rows"

text \<open>
  \<^verbatim>\<open>filter(data)\<close>. A cached key returns the cached result whatever the data. Otherwise
  the four stages run in order, the result is cached, and when the cache then holds more
  than 20 keys the oldest one is deleted.
\<close>

definition AdvancedFilter_filter ::
  "builtins \<Rightarrow> AdvancedFilter \<Rightarrow> row list \<Rightarrow> (error + FilterResult) \<times> AdvancedFilter" where
  "AdvancedFilter_filter B af rows =
     (let cacheKey = generateCacheKey B af in
      case Map_get (filterResults af) cacheKey of
        Some cached \<Rightarrow> (Inr cached, af\<lparr>filterCacheHits := filterCacheHits af + 1\<rparr>)
      | None \<Rightarrow>
          (let af1 = af\<lparr>filterCacheMisses := filterCacheMisses af + 1\<rparr>;
               stage1 = (if length (conditions (compositeFilter af1)) > 0
                         then filter_composite B (compositeFilter af1) rows
                         else (Inr rows, compositeFilter af1))
           in case stage1 of
                (Inl e, cf1) \<Rightarrow> (Inl e, af1\<lparr>compositeFilter := cf1\<rparr>)
              | (Inr rs1, cf1) \<Rightarrow>
                  (let rs4 = filter_numeric B (numericRanges af1)
                               (filter_dates B (dateRanges af1)
                                  (filter_columns (columnFilters af1) rs1));
                       res = \<lparr>fr_results = rs4, fr_count = length rs4\<rparr>;
                       fr1 = Map_set (filterResults af1) cacheKey res;
                       fr2 = (if length fr1 > 20 then Map_delete fr1 (fst (hd fr1)) else fr1)
                   in (Inr res, af1\<lparr>compositeFilter := cf1, filterResults := fr2\<rparr>))))"

text \<open>A call of one of the four methods that add a constraint, and a sequence of such calls.\<close>

datatype add_call =
    AddCondition string string jsval
  | AddColumnFilter string jsval
  | AddDateRange string jsnum jsnum
  | AddNumericRange string jsval jsval

fun apply_call :: "add_call \<Rightarrow> AdvancedFilter \<Rightarrow> AdvancedFilter" where
  "apply_call (AddCondition f op v) af = addCondition af f op v"
| "apply_call (AddColumnFilter f vals) af = addColumnFilter af f vals"
| "apply_call (AddDateRange f s e) af = addDateRange af f s e"
| "apply_call (AddNumericRange f mn mx) af = addNumericRange af f mn mx"

definition apply_calls :: "add_call list \<Rightarrow> AdvancedFilter \<Rightarrow> AdvancedFilter" where
  "apply_calls cs af = fold apply_call cs af"

fun is_AddCondition :: "add_call \<Rightarrow> bool" where
  "is_AddCondition (AddCondition f op v) = True"
| "is_AddCondition _ = False"

fun is_AddColumnFilter :: "add_call \<Rightarrow> bool" where
  "is_AddColumnFilter (AddColumnFilter f vals) = True"
| "is_AddColumnFilter _ = False"

fun is_AddDateRange :: "add_call \<Rightarrow> bool" where
  "is_AddDateRange (AddDateRange f s e) = True"
| "is_AddDateRange _ = False"

fun is_AddNumericRange :: "add_call \<Rightarrow> bool" where
  "is_AddNumericRange (AddNumericRange f mn mx) = True"
| "is_AddNumericRange _ = False"

section \<open>An instance of the built-ins\<close>

text \<open>
  The scenarios below are evaluated with this instance of the parameters. It prints a
  finite number in plain decimal notation (what Number::toString gives for an integer of
  magnitude below 1e21 and for a short decimal fraction of magnitude at least 1e-6), scans
  a StrDecimalLiteral (sign, Infinity, digits, fraction, exponent) without rounding, reads
  a whole string as a number through the same scan (the 0x, 0o and 0b forms are not read),
  and parses the date-only form YYYY-MM-DD as midnight UTC.
\<close>

definition is_digit :: "char \<Rightarrow> bool" where
  "is_digit c = (48 \<le> (of_char c :: nat) \<and> (of_char c :: nat) \<le> 57)"

definition digit_char :: "nat \<Rightarrow> char" where
  "digit_char d = char_of (48 + d)"

fun nat_to_string :: "nat \<Rightarrow> string" where
  "nat_to_string n =
     (if n < 10 then [digit_char n] else nat_to_string (n div 10) @ [digit_char (n mod 10)])"

fun fraction_digits :: "nat \<Rightarrow> rat \<Rightarrow> string" where
  "fraction_digits 0 f = []"
| "fraction_digits (Suc k) f =
     (if f = 0 then []
      else digit_char (nat \<lfloor>f * 10\<rfloor>) # fraction_digits k (f * 10 - of_int \<lfloor>f * 10\<rfloor>))"

definition es_NumberToString :: "rat \<Rightarrow> string" where
  "es_NumberToString r =
     (let a = \<bar>r\<bar>; i = \<lfloor>a\<rfloor>; f = a - of_int i in
      (if r < 0 then ''-'' else []) @ nat_to_string (nat i)
      @ (if f = 0 then [] else ''.'' @ fraction_digits 20 f))"

definition digits_value :: "string \<Rightarrow> nat" where
  "digits_value ds = foldl (\<lambda>acc c. acc * 10 + ((of_char c :: nat) - 48)) 0 ds"

definition scan_sign :: "string \<Rightarrow> bool \<times> string" where
  "scan_sign s =
     (case s of
        c # t \<Rightarrow>
          if c = CHR ''-'' then (True, t) else if c = CHR ''+'' then (False, t) else (False, s)
      | [] \<Rightarrow> (False, s))"

definition scan_exponent :: "string \<Rightarrow> int \<times> string" where
  "scan_exponent s =
     (case s of
        c # t \<Rightarrow>
          (if c = CHR ''e'' \<or> c = CHR ''E'' then
             (let (neg, u) = scan_sign t; ds = takeWhile is_digit u in
              if ds = [] then (0, s)
              else ((if neg then - int (digits_value ds) else int (digits_value ds)),
                    dropWhile is_digit u))
           else (0, s))
      | [] \<Rightarrow> (0, s))"

text \<open>The longest numeral at the start of a string, with the rest of the string.\<close>

definition scan_decimal :: "string \<Rightarrow> (jsnum \<times> string) option" where
  "scan_decimal s =
     (let (neg, t) = scan_sign s in
      if startsWith t ''Infinity'' then Some (if neg then NegInf else PosInf, drop 8 t)
      else
        (let ip = takeWhile is_digit t; t1 = dropWhile is_digit t;
             fp = (case t1 of
                     c # u \<Rightarrow> if c = CHR ''.'' then takeWhile is_digit u else []
                   | [] \<Rightarrow> []);
             t2 = (case t1 of
                     c # u \<Rightarrow> if c = CHR ''.'' then dropWhile is_digit u else t1
                   | [] \<Rightarrow> t1)
         in
         if ip = [] \<and> fp = [] then None
         else
           (let (e, t3) = scan_exponent t2;
                m = of_nat (digits_value (ip @ fp)) / 10 ^ length fp;
                x = (if 0 \<le> e then m * 10 ^ nat e else m / 10 ^ nat (- e))
            in Some (Fin (if neg then - x else x), t3))))"

definition es_StrToFloat :: "string \<Rightarrow> jsnum" where
  "es_StrToFloat s =
     (case scan_decimal (dropWhile is_ws s) of None \<Rightarrow> NaN | Some (n, rest) \<Rightarrow> n)"

definition es_StringToNumber :: "string \<Rightarrow> jsnum" where
  "es_StringToNumber s =
     (let t = trim s in
      if t = [] then Fin 0
      else (case scan_decimal t of
              None \<Rightarrow> NaN
            | Some (n, rest) \<Rightarrow> if rest = [] then n else NaN))"

definition days_in_month :: "nat \<Rightarrow> nat \<Rightarrow> nat" where
  "days_in_month y m =
     (if m = 2 then (if y mod 4 = 0 \<and> (y mod 100 \<noteq> 0 \<or> y mod 400 = 0) then 29 else 28)
      else if m = 4 \<or> m = 6 \<or> m = 9 \<or> m = 11 then 30 else 31)"

text \<open>Days from 1970-01-01 to a date of the proleptic Gregorian calendar.\<close>

definition days_from_civil :: "int \<Rightarrow> int \<Rightarrow> int \<Rightarrow> int" where
  "days_from_civil y m d =
     (let y1 = (if m \<le> 2 then y - 1 else y);
          era = y1 div 400;
          yoe = y1 - era * 400;
          doy = (153 * (if 2 < m then m - 3 else m + 9) + 2) div 5 + d - 1;
          doe = yoe * 365 + yoe div 4 - yoe div 100 + doy
      in era * 146097 + doe - 719468)"

definition es_DateParse :: "string \<Rightarrow> jsnum" where
  "es_DateParse s =
     (if length s = 10 \<and> s ! 4 = CHR ''-'' \<and> s ! 7 = CHR ''-''
         \<and> list_all is_digit (take 4 s @ take 2 (drop 5 s) @ drop 8 s)
      then
        (let y = digits_value (take 4 s); m = digits_value (take 2 (drop 5 s));
             d = digits_value (drop 8 s) in
         if 1 \<le> m \<and> m \<le> 12 \<and> 1 \<le> d \<and> d \<le> days_in_month y m
         then Fin (of_int (days_from_civil (int y) (int m) (int d) * 86400000))
         else NaN)
      else NaN)"

definition es :: builtins where
  "es = \<lparr>NumberToString = es_NumberToString, StrToFloat = es_StrToFloat,
          StringToNumber = es_StringToNumber, DateParse = es_DateParse\<rparr>"

section \<open>Notions used in the statements\<close>

text \<open>An outcome that is a thrown error.\<close>

definition throws :: "error + 'a \<Rightarrow> bool" where
  "throws x = (case x of Inl e \<Rightarrow> True | Inr y \<Rightarrow> False)"

text \<open>The values \<^verbatim>\<open>const [a, b] = v\<close> accepts: arrays and strings.\<close>

definition iterable :: "jsval \<Rightarrow> bool" where
  "iterable v = (case v of VArr a xs \<Rightarrow> True | VStr s \<Rightarrow> True | _ \<Rightarrow> False)"

text \<open>
  A condition as the data model defines it: the value of a between or date-between
  condition is a tuple, that is, a value \<^verbatim>\<open>const [a, b] = v\<close> accepts. The other
  operators put no demand on the value.
\<close>

definition well_formed :: "FilterCondition \<Rightarrow> bool" where
  "well_formed c =
     (if operator c = ''between'' \<or> operator c = ''date-between'' then iterable (cond_value c)
      else True)"

text \<open>The operators \<^verbatim>\<open>matches\<close> has a case for (the keys of the table in \<^verbatim>\<open>getDescription\<close>).\<close>

definition known_operators :: "string list" where
  "known_operators =
     [''eq'', ''contains'', ''gt'', ''gte'', ''lt'', ''lte'', ''between'', ''in'', ''date-between'']"

text \<open>
  A sequence of \<^verbatim>\<open>matches\<close> calls on one filter, one per row of the list, each call
  made whether or not the one before threw: the filter afterwards.
\<close>

fun run_matches :: "builtins \<Rightarrow> CompositeFilter \<Rightarrow> row list \<Rightarrow> CompositeFilter" where
  "run_matches B cf [] = cf"
| "run_matches B cf (r # rs) = run_matches B (snd (CompositeFilter_matches B cf r)) rs"

text \<open>The three rows of the scenarios and the AND filter of the second one.\<close>

definition scenario_rows :: "row list" where
  "scenario_rows =
     [[(''code'', VStr ''A1''), (''points'', VNum (Fin 100))],
      [(''code'', VStr ''A2''), (''points'', VNum (Fin 200))],
      [(''code'', VStr ''B1''), (''points'', VNum (Fin 150))]]"

definition scenario_filter :: CompositeFilter where
  "scenario_filter =
     CompositeFilter_addCondition
       (CompositeFilter_addCondition (CompositeFilter_new ''AND'')
          (FilterCondition_new ''points'' ''gte'' (VNum (Fin 120))))
       (FilterCondition_new ''code'' ''contains'' (VStr ''A''))"

text \<open>The rows the index holds under a token.\<close>

definition token_rows :: "(string \<times> nat list) list \<Rightarrow> string \<Rightarrow> nat set" where
  "token_rows idx t = (case Map_get idx t of Some rs \<Rightarrow> set rs | None \<Rightarrow> {})"

text \<open>
  Every row set of the index is a Set, that is, holds no row twice. The model keeps a Set
  as a list, so this is said outright; \<^verbatim>\<open>build\<close> only produces such indexes.
\<close>

definition sets_distinct :: "InvertedIndexBuilder \<Rightarrow> bool" where
  "sets_distinct ib = list_all (\<lambda>e. distinct (snd e)) (index ib)"

text \<open>The two columns of the scenario rows, and the optimizer initialized with them.\<close>

definition scenario_columns :: "column list" where
  "scenario_columns =
     [\<lparr>key = ''code'', coltype = ''string''\<rparr>, \<lparr>key = ''points'', coltype = ''number''\<rparr>]"

definition scenario_optimizer :: SearchOptimizer where
  "scenario_optimizer = initialize es SearchOptimizer_new scenario_rows scenario_columns"

text \<open>
  A cache of capacity 20 after \<^verbatim>\<open>set\<close> was called with the empty keyword and with
  nineteen more keywords; the empty keyword is what \<^verbatim>\<open>search('')\<close> caches.
\<close>

definition twenty_keys :: "string list" where
  "twenty_keys = ['''', ''a'', ''b'', ''c'', ''d'', ''e'', ''f'', ''g'', ''h'', ''i'', ''j'',
                  ''k'', ''l'', ''m'', ''n'', ''o'', ''p'', ''q'', ''r'', ''s'']"

definition full_cache :: SearchCache where
  "full_cache = fold (\<lambda>k sc. SearchCache_set sc k []) twenty_keys (SearchCache_new 20)"

text \<open>
  A one-row dataset whose code is longer than the longest n-gram, and the optimizer built
  on it after the user has searched for "abcd".
\<close>

definition long_code_rows :: "row list" where
  "long_code_rows = [[(''code'', VStr ''abcdef'')]]"

definition code_column :: "column list" where
  "code_column = [\<lparr>key = ''code'', coltype = ''string''\<rparr>]"

definition typed_abcd :: SearchOptimizer where
  "typed_abcd = snd (search (initialize es SearchOptimizer_new long_code_rows code_column) ''abcd'')"

text \<open>Two sequences of adding calls that differ only in how the kinds are interleaved.\<close>

definition calls_a :: "add_call list" where
  "calls_a = [AddCondition ''code'' ''contains'' (VStr ''A''),
              AddNumericRange ''points'' (VNum (Fin 100)) (VNum (Fin 150)),
              AddColumnFilter ''code'' (VArr 0 [VStr ''A1'', VStr ''B1''])]"

definition calls_b :: "add_call list" where
  "calls_b = [AddColumnFilter ''code'' (VArr 0 [VStr ''A1'', VStr ''B1'']),
              AddNumericRange ''points'' (VNum (Fin 100)) (VNum (Fin 150)),
              AddCondition ''code'' ''contains'' (VStr ''A'')]"

text \<open>The scenario optimizer after a search for "A".\<close>

definition searched_A :: SearchOptimizer where
  "searched_A = snd (search scenario_optimizer ''A'')"

section \<open>Properties of FilterCondition and CompositeFilter\<close>

lemma num_le_NaN [simp]: "num_le NaN x = False" "num_le x NaN = False"
  by (simp_all add: num_le_def)

lemma num_lt_NaN [simp]: "num_lt x NaN = False"
  by (cases x) simp_all

lemma destructure2_not_iterable: "\<not> iterable v \<Longrightarrow> destructure2 v = Inl TypeError"
  by (cases v) (simp_all add: iterable_def destructure2_def)

lemma destructure2_iterable: "iterable v \<Longrightarrow> \<exists>a b. destructure2 v = Inr (a, b)"
  by (cases v) (simp_all add: iterable_def destructure2_def)

lemma matches_counters:
  "evaluations (snd (CompositeFilter_matches B cf r)) = evaluations cf + 1"
  "shortCircuits (snd (CompositeFilter_matches B cf r)) \<le> shortCircuits cf + 1"
  by (simp_all add: CompositeFilter_matches_def Let_def split: sum.splits)

lemma matches_invariant:
  "shortCircuits cf \<le> evaluations cf \<Longrightarrow>
   shortCircuits (snd (CompositeFilter_matches B cf r))
     \<le> evaluations (snd (CompositeFilter_matches B cf r))"
  using matches_counters [of B cf r] by linarith

lemma run_matches_invariant:
  "shortCircuits cf \<le> evaluations cf \<Longrightarrow>
   shortCircuits (run_matches B cf rs) \<le> evaluations (run_matches B cf rs)"
  by (induction rs arbitrary: cf) (simp_all add: matches_invariant)

lemma and_loop_total:
  "list_all (\<lambda>c. \<not> throws (FilterCondition_matches B c r)) cs \<Longrightarrow>
   and_loop B cs r = Inr (list_all (\<lambda>c. FilterCondition_matches B c r = Inr True) cs)"
  by (induction cs) (auto simp: throws_def split: sum.splits)

lemma and_loop_True_iff:
  "and_loop B cs r = Inr True \<longleftrightarrow> list_all (\<lambda>c. FilterCondition_matches B c r = Inr True) cs"
  by (induction cs) (auto split: sum.splits)

lemma list_all_mset: "mset xs = mset ys \<Longrightarrow> list_all P xs = list_all P ys"
  by (metis list_all_iff mset_eq_setD)

lemma and_loop_perm:
  assumes "mset cs' = mset cs"
    and "list_all (\<lambda>c. \<not> throws (FilterCondition_matches B c r)) cs"
  shows "and_loop B cs' r = and_loop B cs r"
proof -
  from assms have "list_all (\<lambda>c. \<not> throws (FilterCondition_matches B c r)) cs'"
    using list_all_mset by blast
  with assms show ?thesis
    using list_all_mset [OF assms(1)] by (simp add: and_loop_total)
qed

lemma matches_fst_AND:
  "logic cf = ''AND'' \<Longrightarrow>
   fst (CompositeFilter_matches B cf r) = and_loop B (conditions cf) r"
  by (cases "conditions cf") (simp_all add: CompositeFilter_matches_def Let_def split: sum.splits)

text \<open>
  C10. With an empty conditions list \<^verbatim>\<open>matches(row)\<close> returns true for every row and
  every logic setting, an OR filter included, and the call still adds one to
  \<^verbatim>\<open>evaluations\<close>; nothing else of the filter changes.
\<close>

theorem empty_composite_matches_every_row:
  assumes "conditions cf = []"
  shows "CompositeFilter_matches B cf r = (Inr True, cf\<lparr>evaluations := evaluations cf + 1\<rparr>)"
  using assms by (simp add: CompositeFilter_matches_def)

theorem empty_composite_matches_every_row_witness:
  "conditions (CompositeFilter_new ''OR'') = []
   \<and> CompositeFilter_matches es (CompositeFilter_new ''OR'') [(''code'', VStr ''B1'')]
       = (Inr True, (CompositeFilter_new ''OR'')\<lparr>evaluations := 1\<rparr>)"
proof -
  have h: "conditions (CompositeFilter_new ''OR'') = []"
    by (simp add: CompositeFilter_new_def)
  from empty_composite_matches_every_row [OF h, of es "[(''code'', VStr ''B1'')]"] h
  show ?thesis by (simp add: CompositeFilter_new_def)
qed

text \<open>
  C6. On the three scenario rows, the AND filter with the conditions points gte 120 and
  code contains "A", called once per row, matches row 1 only; afterwards
  \<^verbatim>\<open>evaluations\<close> is 3 and \<^verbatim>\<open>shortCircuits\<close> is 2.
\<close>

theorem scenario_and_filter:
  "fst (matches_each B scenario_filter scenario_rows) = Inr [False, True, False]
   \<and> evaluations (snd (matches_each B scenario_filter scenario_rows)) = 3
   \<and> shortCircuits (snd (matches_each B scenario_filter scenario_rows)) = 2"
  by (simp add: scenario_filter_def scenario_rows_def CompositeFilter_addCondition_def
      CompositeFilter_new_def FilterCondition_new_def CompositeFilter_matches_def
      FilterCondition_matches_def row_get_def parseFloat_def num_le_def or_empty_def
      toLowerCase_def toLowerCase_char_def startsWith_def char_of_def)

lemma well_formed_no_throw:
  assumes "well_formed c"
  shows "\<not> throws (FilterCondition_matches B c r)"
proof (cases "operator c = ''between'' \<or> operator c = ''date-between''")
  case True
  with assms have "iterable (cond_value c)" by (simp add: well_formed_def)
  then obtain a b where "destructure2 (cond_value c) = Inr (a, b)"
    using destructure2_iterable by blast
  then show ?thesis
    by (simp add: FilterCondition_matches_def Let_def throws_def)
next
  case False
  then show ?thesis
    by (simp add: FilterCondition_matches_def Let_def throws_def)
qed

lemma list_all_well_formed_no_throw:
  assumes "list_all well_formed cs"
  shows "list_all (\<lambda>c. \<not> throws (FilterCondition_matches B c r)) cs"
  using assms by (simp add: list_all_iff well_formed_no_throw)

text \<open>
  C7. For every AND filter, the invariant shortCircuits <= evaluations is kept by every
  sequence of \<^verbatim>\<open>matches\<close> calls. For a fixed row and conditions as the data model
  defines them (the value of a between or date-between condition is a tuple), \<^verbatim>\<open>matches\<close>
  returns a boolean and every permutation of the conditions list returns the same one.
  More generally, the outcome is the same under every permutation whenever no condition
  throws on the row, and two permutations that both return a boolean return the same one.
\<close>

theorem and_filter_counters_and_order:
  assumes "logic cf = ''AND''"
  shows "(shortCircuits cf \<le> evaluations cf
            \<longrightarrow> shortCircuits (run_matches B cf rs) \<le> evaluations (run_matches B cf rs))
       \<and> (mset cs' = mset (conditions cf) \<and> list_all well_formed (conditions cf)
            \<longrightarrow> (\<exists>b. fst (CompositeFilter_matches B cf r) = Inr b
                     \<and> fst (CompositeFilter_matches B (cf\<lparr>conditions := cs'\<rparr>) r) = Inr b))
       \<and> (mset cs' = mset (conditions cf)
            \<and> list_all (\<lambda>c. \<not> throws (FilterCondition_matches B c r)) (conditions cf)
            \<longrightarrow> fst (CompositeFilter_matches B (cf\<lparr>conditions := cs'\<rparr>) r)
                = fst (CompositeFilter_matches B cf r))
       \<and> (mset cs' = mset (conditions cf)
            \<and> fst (CompositeFilter_matches B (cf\<lparr>conditions := cs'\<rparr>) r) = Inr b'
            \<and> fst (CompositeFilter_matches B cf r) = Inr b
            \<longrightarrow> b' = b)"
proof (intro conjI impI)
  assume "shortCircuits cf \<le> evaluations cf"
  then show "shortCircuits (run_matches B cf rs) \<le> evaluations (run_matches B cf rs)"
    by (rule run_matches_invariant)
next
  assume a: "mset cs' = mset (conditions cf) \<and> list_all well_formed (conditions cf)"
  then have nt: "list_all (\<lambda>c. \<not> throws (FilterCondition_matches B c r)) (conditions cf)"
    by (simp add: list_all_well_formed_no_throw)
  then have "and_loop B cs' r = and_loop B (conditions cf) r"
    using a and_loop_perm by blast
  moreover have "\<exists>b. and_loop B (conditions cf) r = Inr b"
    using and_loop_total [OF nt] by blast
  ultimately show "\<exists>b. fst (CompositeFilter_matches B cf r) = Inr b
                     \<and> fst (CompositeFilter_matches B (cf\<lparr>conditions := cs'\<rparr>) r) = Inr b"
    using assms by (simp add: matches_fst_AND)
next
  assume "mset cs' = mset (conditions cf)
            \<and> list_all (\<lambda>c. \<not> throws (FilterCondition_matches B c r)) (conditions cf)"
  then have "and_loop B cs' r = and_loop B (conditions cf) r"
    using and_loop_perm by blast
  then show "fst (CompositeFilter_matches B (cf\<lparr>conditions := cs'\<rparr>) r)
                = fst (CompositeFilter_matches B cf r)"
    using assms by (simp add: matches_fst_AND)
next
  assume a: "mset cs' = mset (conditions cf)
            \<and> fst (CompositeFilter_matches B (cf\<lparr>conditions := cs'\<rparr>) r) = Inr b'
            \<and> fst (CompositeFilter_matches B cf r) = Inr b"
  then have l: "and_loop B cs' r = Inr b'" "and_loop B (conditions cf) r = Inr b"
    using assms by (simp_all add: matches_fst_AND)
  have "and_loop B cs' r = Inr True \<longleftrightarrow> and_loop B (conditions cf) r = Inr True"
    using a list_all_mset [of cs' "conditions cf"] by (simp add: and_loop_True_iff)
  with l show "b' = b" by auto
qed

theorem and_filter_counters_and_order_witness:
  "logic scenario_filter = ''AND''
   \<and> shortCircuits scenario_filter \<le> evaluations scenario_filter
   \<and> mset (rev (conditions scenario_filter)) = mset (conditions scenario_filter)
   \<and> list_all well_formed (conditions scenario_filter)
   \<and> list_all (\<lambda>c. \<not> throws (FilterCondition_matches es c (scenario_rows ! 2)))
       (conditions scenario_filter)
   \<and> shortCircuits (run_matches es scenario_filter scenario_rows)
       \<le> evaluations (run_matches es scenario_filter scenario_rows)
   \<and> fst (CompositeFilter_matches es
            (scenario_filter\<lparr>conditions := rev (conditions scenario_filter)\<rparr>) (scenario_rows ! 2))
       = Inr False
   \<and> fst (CompositeFilter_matches es scenario_filter (scenario_rows ! 2)) = Inr False"
proof -
  have h1: "logic scenario_filter = ''AND''"
    by (simp add: scenario_filter_def CompositeFilter_addCondition_def CompositeFilter_new_def)
  have h2: "shortCircuits scenario_filter \<le> evaluations scenario_filter"
    by (simp add: scenario_filter_def CompositeFilter_addCondition_def CompositeFilter_new_def)
  have h3: "mset (rev (conditions scenario_filter)) = mset (conditions scenario_filter)"
    by simp
  have h4: "list_all well_formed (conditions scenario_filter)"
    by code_simp
  have h5: "list_all (\<lambda>c. \<not> throws (FilterCondition_matches es c (scenario_rows ! 2)))
       (conditions scenario_filter)"
    by code_simp
  have h6: "fst (CompositeFilter_matches es scenario_filter (scenario_rows ! 2)) = Inr False"
    by code_simp
  note t = and_filter_counters_and_order [OF h1, of es scenario_rows
      "rev (conditions scenario_filter)" "scenario_rows ! 2"]
  from t h2
  have i: "shortCircuits (run_matches es scenario_filter scenario_rows)
       \<le> evaluations (run_matches es scenario_filter scenario_rows)"
    by blast
  from t h3 h4 obtain b where
    "fst (CompositeFilter_matches es scenario_filter (scenario_rows ! 2)) = Inr b"
    "fst (CompositeFilter_matches es
            (scenario_filter\<lparr>conditions := rev (conditions scenario_filter)\<rparr>) (scenario_rows ! 2))
       = Inr b"
    by blast
  with h6 have p: "fst (CompositeFilter_matches es
            (scenario_filter\<lparr>conditions := rev (conditions scenario_filter)\<rparr>) (scenario_rows ! 2))
       = Inr False"
    by simp
  from h1 h2 h3 h4 h5 h6 i p show ?thesis by blast
qed

text \<open>
  C5. With operator gt, gte, lt or lte, a row value or a condition value that does not
  parse as a number makes \<^verbatim>\<open>matches\<close> return false: nothing is thrown and nothing is
  coerced to 0. The same holds for a between condition (its value a tuple, that is, a
  value the destructuring accepts) when the row value does not parse as a number.
\<close>

theorem non_numeric_does_not_match:
  "(operator c \<in> {''gt'', ''gte'', ''lt'', ''lte''}
      \<and> (parseFloat B (row_get r (field c)) = NaN \<or> parseFloat B (cond_value c) = NaN)
      \<longrightarrow> FilterCondition_matches B c r = Inr False)
   \<and> (operator c = ''between'' \<and> iterable (cond_value c)
      \<and> parseFloat B (row_get r (field c)) = NaN
      \<longrightarrow> FilterCondition_matches B c r = Inr False)"
proof (intro conjI impI)
  assume "operator c \<in> {''gt'', ''gte'', ''lt'', ''lte''}
      \<and> (parseFloat B (row_get r (field c)) = NaN \<or> parseFloat B (cond_value c) = NaN)"
  then show "FilterCondition_matches B c r = Inr False"
    by (auto simp: FilterCondition_matches_def Let_def)
next
  assume a: "operator c = ''between'' \<and> iterable (cond_value c)
      \<and> parseFloat B (row_get r (field c)) = NaN"
  then obtain mn mx where "destructure2 (cond_value c) = Inr (mn, mx)"
    using destructure2_iterable by blast
  with a show "FilterCondition_matches B c r = Inr False"
    by (simp add: FilterCondition_matches_def Let_def)
qed

theorem non_numeric_does_not_match_witness:
  "operator (FilterCondition_new ''points'' ''lte'' (VNum (Fin 5))) \<in> {''gt'', ''gte'', ''lt'', ''lte''}
   \<and> parseFloat es (row_get [(''points'', VStr ''abc'')] ''points'') = NaN
   \<and> FilterCondition_matches es (FilterCondition_new ''points'' ''lte'' (VNum (Fin 5)))
        [(''points'', VStr ''abc'')] = Inr False
   \<and> parseFloat es (VStr ''n/a'') = NaN
   \<and> FilterCondition_matches es (FilterCondition_new ''points'' ''gt'' (VStr ''n/a''))
        [(''points'', VNum (Fin 100))] = Inr False
   \<and> iterable (VArr 0 [VNum (Fin 1), VNum (Fin 2)])
   \<and> FilterCondition_matches es
        (FilterCondition_new ''points'' ''between'' (VArr 0 [VNum (Fin 1), VNum (Fin 2)]))
        [(''points'', VStr ''abc'')] = Inr False"
proof -
  have n: "parseFloat es (row_get [(''points'', VStr ''abc'')] ''points'') = NaN"
    "parseFloat es (VStr ''n/a'') = NaN"
    by code_simp+
  have i: "iterable (VArr 0 [VNum (Fin 1), VNum (Fin 2)])"
    by (simp add: iterable_def)
  from non_numeric_does_not_match
         [of "FilterCondition_new ''points'' ''lte'' (VNum (Fin 5))" es
             "[(''points'', VStr ''abc'')]"] n
  have a: "FilterCondition_matches es (FilterCondition_new ''points'' ''lte'' (VNum (Fin 5)))
        [(''points'', VStr ''abc'')] = Inr False"
    by (simp add: FilterCondition_new_def)
  from non_numeric_does_not_match
         [of "FilterCondition_new ''points'' ''gt'' (VStr ''n/a'')" es
             "[(''points'', VNum (Fin 100))]"] n
  have a': "FilterCondition_matches es (FilterCondition_new ''points'' ''gt'' (VStr ''n/a''))
        [(''points'', VNum (Fin 100))] = Inr False"
    by (simp add: FilterCondition_new_def)
  from non_numeric_does_not_match
         [of "FilterCondition_new ''points'' ''between'' (VArr 0 [VNum (Fin 1), VNum (Fin 2)])" es
             "[(''points'', VStr ''abc'')]"] n i
  have b: "FilterCondition_matches es
        (FilterCondition_new ''points'' ''between'' (VArr 0 [VNum (Fin 1), VNum (Fin 2)]))
        [(''points'', VStr ''abc'')] = Inr False"
    by (simp add: FilterCondition_new_def)
  from n i a a' b show ?thesis by (simp add: FilterCondition_new_def)
qed

text \<open>
  C3, as stated, fails: the constructor checks nothing. A condition with the operator
  "regex" is constructed, \<^verbatim>\<open>matches\<close> is reached with it and returns true on a row
  that has nothing to do with its value.
\<close>

theorem unknown_operator_counterexample:
  "FilterCondition_new ''code'' ''regex'' (VStr ''^A'')
     = \<lparr>field = ''code'', operator = ''regex'', cond_value = VStr ''^A''\<rparr>
   \<and> ''regex'' \<notin> set known_operators
   \<and> FilterCondition_matches es (FilterCondition_new ''code'' ''regex'' (VStr ''^A''))
       [(''code'', VStr ''B1'')] = Inr True"
  by code_simp

text \<open>
  C3, amended. Constructing a FilterCondition never raises: the constructor stores field,
  operator and value unchecked, and malformed conditions show at row evaluation. With an
  operator outside the nine known ones \<^verbatim>\<open>matches\<close> returns true for every row. With
  between or date-between: a value that is not iterable makes \<^verbatim>\<open>matches\<close> throw a
  TypeError; an array of fewer than two elements makes it return false for every row;
  elements after the second are ignored.
\<close>

theorem malformed_condition_behaviour:
  "FilterCondition_new f op v = \<lparr>field = f, operator = op, cond_value = v\<rparr>
   \<and> (op \<notin> set known_operators
        \<longrightarrow> FilterCondition_matches B (FilterCondition_new f op v) r = Inr True)
   \<and> (op \<in> {''between'', ''date-between''} \<and> \<not> iterable v
        \<longrightarrow> FilterCondition_matches B (FilterCondition_new f op v) r = Inl TypeError)
   \<and> (op \<in> {''between'', ''date-between''} \<and> length xs < 2
        \<longrightarrow> FilterCondition_matches B (FilterCondition_new f op (VArr a xs)) r = Inr False)
   \<and> (op \<in> {''between'', ''date-between''}
        \<longrightarrow> FilterCondition_matches B (FilterCondition_new f op (VArr a (x # y # zs))) r
          = FilterCondition_matches B (FilterCondition_new f op (VArr a [x, y])) r)"
proof (intro conjI impI)
  show "FilterCondition_new f op v = \<lparr>field = f, operator = op, cond_value = v\<rparr>"
    by (simp add: FilterCondition_new_def)
next
  assume "op \<notin> set known_operators"
  then show "FilterCondition_matches B (FilterCondition_new f op v) r = Inr True"
    by (simp add: known_operators_def FilterCondition_matches_def FilterCondition_new_def)
next
  assume "op \<in> {''between'', ''date-between''} \<and> \<not> iterable v"
  then show "FilterCondition_matches B (FilterCondition_new f op v) r = Inl TypeError"
    by (auto simp: FilterCondition_matches_def FilterCondition_new_def destructure2_not_iterable)
next
  assume "op \<in> {''between'', ''date-between''} \<and> length xs < 2"
  then show "FilterCondition_matches B (FilterCondition_new f op (VArr a xs)) r = Inr False"
    by (auto simp: FilterCondition_matches_def FilterCondition_new_def destructure2_def
        nth_or_undefined_def ToNumber_def Let_def)
next
  assume "op \<in> {''between'', ''date-between''}"
  then show "FilterCondition_matches B (FilterCondition_new f op (VArr a (x # y # zs))) r
          = FilterCondition_matches B (FilterCondition_new f op (VArr a [x, y])) r"
    by (auto simp: FilterCondition_matches_def FilterCondition_new_def destructure2_def
        nth_or_undefined_def)
qed

theorem malformed_condition_behaviour_witness:
  "''regex'' \<notin> set known_operators
   \<and> FilterCondition_matches es (FilterCondition_new ''code'' ''regex'' (VStr ''^A''))
       [(''code'', VStr ''B1'')] = Inr True
   \<and> ''date-between'' \<in> {''between'', ''date-between''} \<and> \<not> iterable VNull
   \<and> FilterCondition_matches es (FilterCondition_new ''day'' ''date-between'' VNull)
       [(''day'', VStr ''2024-03-01'')] = Inl TypeError
   \<and> ''between'' \<in> {''between'', ''date-between''} \<and> length [VNum (Fin 100)] < 2
   \<and> FilterCondition_matches es (FilterCondition_new ''points'' ''between'' (VArr 0 [VNum (Fin 100)]))
       [(''points'', VNum (Fin 100))] = Inr False
   \<and> FilterCondition_matches es
       (FilterCondition_new ''points'' ''between''
          (VArr 0 [VNum (Fin 100), VNum (Fin 150), VNum (Fin 0)]))
       [(''points'', VNum (Fin 100))]
     = FilterCondition_matches es
       (FilterCondition_new ''points'' ''between'' (VArr 0 [VNum (Fin 100), VNum (Fin 150)]))
       [(''points'', VNum (Fin 100))]"
proof -
  have k: "''regex'' \<notin> set known_operators"
    by (simp add: known_operators_def)
  have i: "\<not> iterable VNull"
    by (simp add: iterable_def)
  from malformed_condition_behaviour
         [of "''code''" "''regex''" "VStr ''^A''" es "[(''code'', VStr ''B1'')]", THEN conjunct2] k
  have a: "FilterCondition_matches es (FilterCondition_new ''code'' ''regex'' (VStr ''^A''))
       [(''code'', VStr ''B1'')] = Inr True"
    by blast
  from malformed_condition_behaviour
         [of "''day''" "''date-between''" VNull es "[(''day'', VStr ''2024-03-01'')]",
          THEN conjunct2] i
  have b: "FilterCondition_matches es (FilterCondition_new ''day'' ''date-between'' VNull)
       [(''day'', VStr ''2024-03-01'')] = Inl TypeError"
    by simp
  from malformed_condition_behaviour
         [of "''points''" "''between''" _ es "[(''points'', VNum (Fin 100))]"
             "[VNum (Fin 100)]" 0 "VNum (Fin 100)" "VNum (Fin 150)" "[VNum (Fin 0)]",
          THEN conjunct2]
  have c: "FilterCondition_matches es (FilterCondition_new ''points'' ''between'' (VArr 0 [VNum (Fin 100)]))
       [(''points'', VNum (Fin 100))] = Inr False"
    and d: "FilterCondition_matches es
       (FilterCondition_new ''points'' ''between''
          (VArr 0 [VNum (Fin 100), VNum (Fin 150), VNum (Fin 0)]))
       [(''points'', VNum (Fin 100))]
     = FilterCondition_matches es
       (FilterCondition_new ''points'' ''between'' (VArr 0 [VNum (Fin 100), VNum (Fin 150)]))
       [(''points'', VNum (Fin 100))]"
    by simp_all
  from k i a b c d show ?thesis by simp
qed

section \<open>Properties of Map and Set\<close>

lemma map_of_Map_set: "map_of (Map_set m k v) k' = (if k' = k then Some v else map_of m k')"
  by (induction m) auto

lemma Map_get_Map_set: "Map_get (Map_set m k v) k' = (if k' = k then Some v else Map_get m k')"
  by (simp add: Map_get_def map_of_Map_set)

lemma set_Set_add [simp]: "set (Set_add x s) = insert x (set s)"
  by (auto simp: Set_add_def)

lemma set_fold_Set_add: "set (fold (\<lambda>x acc. Set_add (f x) acc) xs acc) = set acc \<union> f ` set xs"
  by (induction xs arbitrary: acc) auto

lemma set_Set_new [simp]: "set (Set_new xs) = set xs"
  using set_fold_Set_add [of "\<lambda>x. x" xs "[]"] by (simp add: Set_new_def)

lemma fold_Set_add_distinct:
  "distinct (acc @ xs) \<Longrightarrow> fold Set_add xs acc = acc @ xs"
  by (induction xs arbitrary: acc) (auto simp: Set_add_def)

lemma Set_new_distinct: "distinct xs \<Longrightarrow> Set_new xs = xs"
  using fold_Set_add_distinct [of "[]" xs] by (simp add: Set_new_def)

section \<open>Properties of the search optimizer\<close>

lemma SearchCache_set_get:
  "Map_get (cache (SearchCache_set sc k res)) (trim (toLowerCase k))
     = Some \<lparr>entry_results = Set_new res, hitCount = 0\<rparr>"
  by (simp add: SearchCache_set_def Let_def Map_get_Map_set)

lemma search_hit:
  assumes "Map_get (cache (searchCache so)) (trim (toLowerCase k)) = Some e"
  shows "fst (search so k) = \<lparr>results = indexToResults so (entry_results e), source = ''cache''\<rparr>"
    and "Map_get (cache (searchCache (snd (search so k)))) (trim (toLowerCase k))
           = Some (e\<lparr>hitCount := hitCount e + 1\<rparr>)"
    and "data (snd (search so k)) = data so"
  using assms by (simp_all add: search_def SearchCache_get_def Let_def Map_get_Map_set)

lemma search_miss:
  assumes "Map_get (cache (searchCache so)) (trim (toLowerCase k)) = None"
  shows "fst (search so k)
           = \<lparr>results = indexToResults so (InvertedIndexBuilder_search (indexBuilder so) k),
              source = ''index''\<rparr>"
    and "Map_get (cache (searchCache (snd (search so k)))) (trim (toLowerCase k))
           = Some \<lparr>entry_results = Set_new (InvertedIndexBuilder_search (indexBuilder so) k),
                   hitCount = 0\<rparr>"
    and "data (snd (search so k)) = data so"
  using assms by (simp_all add: search_def SearchCache_get_def Let_def SearchCache_set_get)

lemma set_indexToResults:
  "data so' = data so \<Longrightarrow> set xs = set ys \<Longrightarrow> set (indexToResults so' xs) = set (indexToResults so ys)"
  by (simp add: indexToResults_def)

lemma search_distinct:
  "sets_distinct ib \<Longrightarrow> distinct (InvertedIndexBuilder_search ib k)"
  by (auto simp: sets_distinct_def InvertedIndexBuilder_search_def Let_def Map_get_def list_all_iff
      split: option.splits dest!: map_of_SomeD)

lemma distinct_Set_add: "distinct s \<Longrightarrow> distinct (Set_add x s)"
  by (simp add: Set_add_def)

lemma list_all_Map_set:
  "list_all P m \<Longrightarrow> P (k, v) \<Longrightarrow> list_all P (Map_set m k v)"
  by (induction m) auto

lemma sets_distinct_add_token:
  assumes "list_all (\<lambda>e. distinct (snd e)) (snd st)"
  shows "list_all (\<lambda>e. distinct (snd e)) (snd (add_token i tok st))"
proof -
  let ?P = "\<lambda>e :: string \<times> nat list. distinct (snd e)"
  define idx1 where "idx1 = (if \<not> Map_has (snd st) tok then Map_set (snd st) tok [] else snd st)"
  have 1: "list_all ?P idx1"
    using assms by (simp add: idx1_def list_all_Map_set)
  have 2: "snd (add_token i tok st)
             = (case Map_get idx1 tok of
                  Some rows \<Rightarrow> Map_set idx1 tok (Set_add i rows) | None \<Rightarrow> idx1)"
    unfolding idx1_def add_token_def Let_def by simp
  show ?thesis
  proof (cases "Map_get idx1 tok")
    case None
    with 1 2 show ?thesis by simp
  next
    case (Some rs)
    then have "(tok, rs) \<in> set idx1"
      unfolding Map_get_def by (rule map_of_SomeD)
    with 1 have "distinct rs"
      by (auto simp: list_all_iff)
    then have "list_all ?P (Map_set idx1 tok (Set_add i rs))"
      using 1 by (intro list_all_Map_set) (simp_all add: distinct_Set_add)
    with 2 Some show ?thesis by simp
  qed
qed

lemma sets_distinct_fold_add_token:
  "list_all (\<lambda>e. distinct (snd e)) (snd st) \<Longrightarrow>
   list_all (\<lambda>e. distinct (snd e)) (snd (fold (add_token i) toks st))"
  by (induction toks arbitrary: st) (simp_all add: sets_distinct_add_token)

lemma sets_distinct_fold_cols:
  "list_all (\<lambda>e. distinct (snd e)) (snd st) \<Longrightarrow>
   list_all (\<lambda>e. distinct (snd e))
     (snd (fold (\<lambda>col st. fold (add_token i) (tokenize (f col)) st) cols st))"
  by (induction cols arbitrary: st) (simp_all add: sets_distinct_fold_add_token)

lemma sets_distinct_build_row:
  "sets_distinct ib \<Longrightarrow> sets_distinct (build_row B cols ir ib)"
  using sets_distinct_fold_cols [of "([], index ib)"]
  by (simp add: sets_distinct_def build_row_def Let_def)

lemma sets_distinct_build: "sets_distinct (InvertedIndexBuilder_build B rows cols)"
proof -
  have "sets_distinct ib \<Longrightarrow> sets_distinct (fold (build_row B cols) irs ib)" for irs ib
    by (induction irs arbitrary: ib) (simp_all add: sets_distinct_build_row)
  moreover have "sets_distinct InvertedIndexBuilder_new"
    by (simp add: sets_distinct_def InvertedIndexBuilder_new_def)
  ultimately show ?thesis
    by (simp add: InvertedIndexBuilder_build_def)
qed

lemma search_keeps:
  "indexBuilder (snd (search so k)) = indexBuilder so"
  "data (snd (search so k)) = data so"
  "columns (snd (search so k)) = columns so"
  by (simp_all add: search_def Let_def split: prod.splits option.splits)

lemma search_hit_counts:
  assumes "Map_get (cache (searchCache so)) (trim (toLowerCase k)) = Some e"
  shows "hits (searchCache (snd (search so k))) = hits (searchCache so) + 1"
    and "misses (searchCache (snd (search so k))) = misses (searchCache so)"
    and "totalSearches (snd (search so k)) = totalSearches so"
  using assms by (simp_all add: search_def SearchCache_get_def Let_def)

lemma search_caches_keyword:
  "\<exists>e. Map_get (cache (searchCache (snd (search so k)))) (trim (toLowerCase k)) = Some e"
proof (cases "Map_get (cache (searchCache so)) (trim (toLowerCase k))")
  case None
  then show ?thesis using search_miss(2) by blast
next
  case (Some e)
  then show ?thesis using search_hit(2) by blast
qed

lemma search_twice_rows:
  "source (fst (search (snd (search so k)) k)) = ''cache''
   \<and> set (results (fst (search (snd (search so k)) k))) = set (results (fst (search so k)))
   \<and> (sets_distinct (indexBuilder so)
        \<longrightarrow> results (fst (search (snd (search so k)) k)) = results (fst (search so k)))"
proof (cases "Map_get (cache (searchCache so)) (trim (toLowerCase k))")
  case None
  note m = search_miss [OF None]
  note h = search_hit [OF m(2)]
  show ?thesis
    by (simp add: h(1) m(1) m(3) indexToResults_def Set_new_distinct search_distinct)
next
  case (Some e)
  note f = search_hit [OF Some]
  note h = search_hit [OF f(2)]
  show ?thesis
    by (simp add: h(1) f(1) f(3) indexToResults_def)
qed

text \<open>
  C8. Calling \<^verbatim>\<open>search(k)\<close> twice in immediate succession, from any state of the
  optimizer. The second call returns the same result set as the first (the same array
  when the row sets of the index are Sets) and it is served from the search cache: its
  source tag is "cache"; after the first call the cache holds an entry under the
  normalized keyword; the rows the second call returns are that entry's rows; the second
  call adds one to the entry's hitCount and to the cache's hits, counts no miss, counts no
  search in the optimizer's statistics and leaves the index as it was.
\<close>

theorem search_twice:
  "source (fst (search (snd (search so k)) k)) = ''cache''
   \<and> set (results (fst (search (snd (search so k)) k))) = set (results (fst (search so k)))
   \<and> (sets_distinct (indexBuilder so)
        \<longrightarrow> results (fst (search (snd (search so k)) k)) = results (fst (search so k)))
   \<and> (\<exists>e. Map_get (cache (searchCache (snd (search so k)))) (trim (toLowerCase k)) = Some e
          \<and> results (fst (search (snd (search so k)) k))
              = indexToResults (snd (search so k)) (entry_results e)
          \<and> Map_get (cache (searchCache (snd (search (snd (search so k)) k))))
                (trim (toLowerCase k))
              = Some (e\<lparr>hitCount := hitCount e + 1\<rparr>))
   \<and> hits (searchCache (snd (search (snd (search so k)) k)))
       = hits (searchCache (snd (search so k))) + 1
   \<and> misses (searchCache (snd (search (snd (search so k)) k)))
       = misses (searchCache (snd (search so k)))
   \<and> totalSearches (snd (search (snd (search so k)) k)) = totalSearches (snd (search so k))
   \<and> indexBuilder (snd (search (snd (search so k)) k)) = indexBuilder so"
proof -
  obtain e where e: "Map_get (cache (searchCache (snd (search so k)))) (trim (toLowerCase k)) = Some e"
    using search_caches_keyword by blast
  note h = search_hit [OF e]
  note c = search_hit_counts [OF e]
  have "results (fst (search (snd (search so k)) k))
          = indexToResults (snd (search so k)) (entry_results e)"
    by (simp add: h(1))
  with e h(2) c search_twice_rows [of so k] search_keeps(1) show ?thesis
    by simp
qed

theorem search_twice_witness:
  "sets_distinct (indexBuilder scenario_optimizer)
   \<and> source (fst (search (snd (search scenario_optimizer ''A'')) ''A'')) = ''cache''
   \<and> results (fst (search (snd (search scenario_optimizer ''A'')) ''A''))
       = results (fst (search scenario_optimizer ''A''))
   \<and> results (fst (search scenario_optimizer ''A'')) = [scenario_rows ! 0, scenario_rows ! 1]
   \<and> source (fst (search scenario_optimizer ''A'')) = ''index''
   \<and> Map_get (cache (searchCache (snd (search scenario_optimizer ''A'')))) (trim (toLowerCase ''A''))
       = Some \<lparr>entry_results = [0, 1], hitCount = 0\<rparr>
   \<and> hits (searchCache (snd (search scenario_optimizer ''A''))) = 0
   \<and> hits (searchCache (snd (search (snd (search scenario_optimizer ''A'')) ''A''))) = 1
   \<and> misses (searchCache (snd (search (snd (search scenario_optimizer ''A'')) ''A''))) = 1
   \<and> totalSearches (snd (search (snd (search scenario_optimizer ''A'')) ''A'')) = 1"
proof -
  have d: "sets_distinct (indexBuilder scenario_optimizer)"
    by (simp add: scenario_optimizer_def initialize_def sets_distinct_build)
  have r: "results (fst (search scenario_optimizer ''A'')) = [scenario_rows ! 0, scenario_rows ! 1]"
    "source (fst (search scenario_optimizer ''A'')) = ''index''"
    by code_simp+
  have c: "Map_get (cache (searchCache (snd (search scenario_optimizer ''A''))))
             (trim (toLowerCase ''A''))
           = Some \<lparr>entry_results = [0, 1], hitCount = 0\<rparr>"
    "hits (searchCache (snd (search scenario_optimizer ''A''))) = 0"
    "misses (searchCache (snd (search scenario_optimizer ''A''))) = 1"
    "totalSearches (snd (search scenario_optimizer ''A'')) = 1"
    by code_simp+
  from search_twice [of scenario_optimizer "''A''"] d r c show ?thesis
    by simp
qed

section \<open>Properties of the inverted index\<close>

lemma token_rows_add_token:
  "token_rows (snd (add_token i tok st)) t
     = (if t = tok then insert i (token_rows (snd st) tok) else token_rows (snd st) t)"
  by (auto simp: add_token_def token_rows_def Map_has_def Map_get_def map_of_Map_set Let_def
      split: option.splits)

lemma token_rows_fold_add_token:
  "token_rows (snd (fold (add_token i) toks st)) t
     = token_rows (snd st) t \<union> (if t \<in> set toks then {i} else {})"
  by (induction toks arbitrary: st) (auto simp: token_rows_add_token)

lemma token_rows_fold_cols:
  "token_rows (snd (fold (\<lambda>col st. fold (add_token i) (tokenize (f col)) st) cols st)) t
     = token_rows (snd st) t \<union> (if \<exists>col\<in>set cols. t \<in> set (tokenize (f col)) then {i} else {})"
  by (induction cols arbitrary: st) (auto simp: token_rows_fold_add_token)

lemma token_rows_build_row:
  "token_rows (index (build_row B cols ir ib)) t
     = token_rows (index ib) t
       \<union> (if \<exists>col\<in>set cols. t \<in> set (tokenize (indexed_value B (snd ir) col)) then {fst ir} else {})"
  by (simp add: build_row_def Let_def token_rows_fold_cols)

lemma token_rows_fold_build_row:
  "token_rows (index (fold (build_row B cols) irs ib)) t
     = token_rows (index ib) t
       \<union> {i. \<exists>r. (i, r) \<in> set irs \<and> (\<exists>col\<in>set cols. t \<in> set (tokenize (indexed_value B r col)))}"
proof (induction irs arbitrary: ib)
  case Nil
  then show ?case by simp
next
  case (Cons ir irs)
  show ?case
    by (cases ir) (auto simp: Cons token_rows_build_row split: if_splits)
qed

lemma in_set_zip_upt:
  "(i, r) \<in> set (zip [0 ..< length rows] rows) \<longleftrightarrow> i < length rows \<and> r = rows ! i"
proof
  assume "(i, r) \<in> set (zip [0 ..< length rows] rows)"
  then show "i < length rows \<and> r = rows ! i"
    by (auto simp: set_zip)
next
  assume "i < length rows \<and> r = rows ! i"
  then have "(i, r) = zip [0 ..< length rows] rows ! i" "i < length (zip [0 ..< length rows] rows)"
    by simp_all
  then show "(i, r) \<in> set (zip [0 ..< length rows] rows)"
    by (metis nth_mem)
qed

lemma token_rows_build:
  "token_rows (index (InvertedIndexBuilder_build B rows cols)) t
     = {i. i < length rows
           \<and> (\<exists>col\<in>set cols. t \<in> set (tokenize (indexed_value B (rows ! i) col)))}"
proof -
  have "token_rows (index InvertedIndexBuilder_new) t = {}"
    by (simp add: InvertedIndexBuilder_new_def token_rows_def Map_get_def)
  then show ?thesis
    by (simp add: InvertedIndexBuilder_build_def token_rows_fold_build_row in_set_zip_upt)
qed

lemma set_fold_nested:
  assumes "\<And>x acc. set (h x acc) = set acc \<union> F x"
  shows "set (fold h xs acc) = set acc \<union> \<Union>(F ` set xs)"
  by (induction xs arbitrary: acc) (auto simp: assms)

lemma ngram_lengths:
  "set (takeWhile (\<lambda>len. len \<le> 4 \<and> len \<le> n) [2 ..< 5]) = {len. 2 \<le> len \<and> len \<le> 4 \<and> len \<le> n}"
proof -
  have "[2 ..< 5] = [2, 3, 4::nat]" by (simp add: upt_rec)
  then show ?thesis by auto
qed

lemma nth_as_take_drop: "i < length xs \<Longrightarrow> [xs ! i] = take 1 (drop i xs)"
  by (metis Cons_nth_drop_Suc One_nat_def take0 take_Suc_Cons)

lemma set_tokenize:
  "set (tokenize text)
     = {take len (drop i text) | len i. 1 \<le> len \<and> len \<le> 4 \<and> i + len \<le> length text}
       \<union> (if text = [] then {} else {text})"
proof (cases "text = []")
  case True
  then show ?thesis by (auto simp: tokenize_def)
next
  case False
  let ?n = "length text"
  let ?g = "\<lambda>len. (\<lambda>i. take len (drop i text)) ` {0 ..< ?n - len + 1}"
  have t1: "set (fold (\<lambda>i tokens. Set_add [text ! i] tokens) [0 ..< ?n] [])
              = (\<lambda>i. take 1 (drop i text)) ` {0 ..< ?n}"
    using set_fold_Set_add [of "\<lambda>i. [text ! i]" "[0 ..< ?n]" "[]"]
    by (auto simp: nth_as_take_drop image_def)
  have t2: "set (fold (\<lambda>len tokens.
                       fold (\<lambda>i tokens. Set_add (take len (drop i text)) tokens)
                         [0 ..< ?n - len + 1] tokens) lens acc)
              = set acc \<union> \<Union>(?g ` set lens)" for lens acc
    by (rule set_fold_nested) (simp only: set_fold_Set_add set_upt)
  have "set (tokenize text)
          = (\<lambda>i. take 1 (drop i text)) ` {0 ..< ?n}
            \<union> \<Union>(?g ` {len. 2 \<le> len \<and> len \<le> 4 \<and> len \<le> ?n}) \<union> {text}"
    using False
    by (simp only: tokenize_def Let_def if_False if_True length_greater_0_conv simp_thms
        set_Set_add t2 t1 ngram_lengths) simp
  also have "(\<lambda>i. take 1 (drop i text)) ` {0 ..< ?n}
            \<union> \<Union>(?g ` {len. 2 \<le> len \<and> len \<le> 4 \<and> len \<le> ?n})
          = {take len (drop i text) | len i. 1 \<le> len \<and> len \<le> 4 \<and> i + len \<le> ?n}"
    (is "?A \<union> ?B = ?C")
  proof (intro equalityI subsetI)
    fix s assume "s \<in> ?A \<union> ?B"
    then show "s \<in> ?C"
    proof
      assume "s \<in> ?A"
      then obtain i where "i < ?n" "s = take 1 (drop i text)" by auto
      then show ?thesis by (intro CollectI exI [of _ 1] exI [of _ i]) simp
    next
      assume "s \<in> ?B"
      then obtain len i where "2 \<le> len" "len \<le> 4" "len \<le> ?n" "i < ?n - len + 1"
        "s = take len (drop i text)" by auto
      then show ?thesis by (intro CollectI exI [of _ len] exI [of _ i]) simp
    qed
  next
    fix s assume "s \<in> ?C"
    then obtain len i where l: "1 \<le> len" "len \<le> 4" "i + len \<le> ?n" "s = take len (drop i text)"
      by auto
    show "s \<in> ?A \<union> ?B"
    proof (cases "len = 1")
      case True
      with l have "s \<in> ?A" by auto
      then show ?thesis ..
    next
      case False
      with l have "2 \<le> len" "len \<le> ?n" "i < ?n - len + 1" by simp_all
      with l have "s \<in> ?B" by auto
      then show ?thesis ..
    qed
  qed
  finally show ?thesis using False by simp
qed

lemma sublist_take_drop: "sublist (take len (drop i xs)) xs"
  by (metis append_take_drop_id sublist_appendI)

lemma tokenize_sound:
  assumes "t \<in> set (tokenize text)"
  shows "t \<noteq> []" "sublist t text" "length t \<le> 4 \<or> t = text"
proof -
  from assms consider (ngram) len i where "1 \<le> len" "len \<le> 4" "i + len \<le> length text"
      "t = take len (drop i text)" | (whole) "text \<noteq> []" "t = text"
    by (auto simp: set_tokenize split: if_splits)
  then have "t \<noteq> [] \<and> sublist t text \<and> (length t \<le> 4 \<or> t = text)"
  proof cases
    case ngram
    then have "length t = len" by simp
    with ngram show ?thesis by (auto simp: sublist_take_drop)
  next
    case whole
    then show ?thesis by simp
  qed
  then show "t \<noteq> []" "sublist t text" "length t \<le> 4 \<or> t = text" by simp_all
qed

lemma tokenize_complete:
  assumes "s \<noteq> []" "sublist s text" "length s \<le> 4 \<or> s = text"
  shows "s \<in> set (tokenize text)"
proof (cases "s = text")
  case True
  with assms show ?thesis by (simp add: set_tokenize)
next
  case False
  with assms have len: "length s \<le> 4" by simp
  from assms obtain p q where pq: "text = p @ s @ q" by (auto simp: sublist_def)
  then have "s = take (length s) (drop (length p) text)" by simp
  moreover have "1 \<le> length s" using assms(1) by (cases s) simp_all
  moreover have "length p + length s \<le> length text" using pq by simp
  ultimately show ?thesis
    using len by (auto simp: set_tokenize)
qed

lemma toLowerCase_char_idem: "toLowerCase_char (toLowerCase_char c) = toLowerCase_char c"
  by (simp add: toLowerCase_char_def Let_def)

lemma toLowerCase_idem: "toLowerCase (toLowerCase s) = toLowerCase s"
  by (simp add: toLowerCase_def toLowerCase_char_idem)


lemma sublist_trim: "sublist (trim s) s"
proof -
  have "suffix (dropWhile is_ws s) s"
    by (rule suffix_dropWhile)
  moreover have "prefix (trim s) (dropWhile is_ws s)"
    unfolding trim_def by (metis suffix_dropWhile suffix_to_prefix rev_rev_ident)
  ultimately show ?thesis
    by (meson prefix_imp_sublist suffix_imp_sublist sublist_order.order_trans)
qed




lemma search_token_rows:
  "trim (toLowerCase k) \<noteq> [] \<Longrightarrow>
   set (InvertedIndexBuilder_search ib k) = token_rows (index ib) (trim (toLowerCase k))"
  by (simp add: InvertedIndexBuilder_search_def token_rows_def Let_def split: option.splits)





section \<open>Properties of the search cache\<close>

text \<open>
  C9. The bound fails on the code. The cache holds 20 entries, the first one under the
  empty keyword, all with hitCount 0. Setting a new keyword selects the empty keyword for
  eviction, \<^verbatim>\<open>if (lruKey)\<close> takes it for no key at all, nothing is deleted, and the
  cache holds 21 entries.
\<close>

theorem cache_exceeds_maxSize:
  "maxSize full_cache = 20 \<and> length (cache full_cache) = 20
   \<and> \<not> Map_has (cache full_cache) ''t''
   \<and> length (cache (SearchCache_set full_cache ''t'' [])) = 21
   \<and> map fst (cache (SearchCache_set full_cache ''t'' [])) = twenty_keys @ [''t'']"
  by code_simp

lemma length_Map_set_le: "length (Map_set m k v) \<le> length m + 1"
  by (induction m) auto

lemma length_Map_set_present: "map_of m k \<noteq> None \<Longrightarrow> length (Map_set m k v) = length m"
  by (induction m) auto

lemma length_Map_delete: "k \<in> fst ` set m \<Longrightarrow> length (Map_delete m k) < length m"
proof -
  assume "k \<in> fst ` set m"
  then obtain e where "e \<in> set m" "\<not> fst e \<noteq> k" by auto
  then show ?thesis
    unfolding Map_delete_def by (rule length_filter_less)
qed

lemma scan_step_key:
  "snd st = None \<or> (\<exists>k. snd st = Some k \<and> k \<in> K) \<Longrightarrow> fst e \<in> K \<Longrightarrow>
   snd (scan_step e st) = None \<or> (\<exists>k. snd (scan_step e st) = Some k \<and> k \<in> K)"
  by (auto simp: scan_step_def)

lemma scan_finds_key:
  assumes "fst st = None \<longleftrightarrow> snd st = None"
    and "snd st = None \<or> (\<exists>k. snd st = Some k \<and> k \<in> K)"
    and "fst ` set m \<subseteq> K" and "m \<noteq> [] \<or> snd st \<noteq> None"
  shows "\<exists>k. snd (fold scan_step m st) = Some k \<and> k \<in> K"
  using assms
proof (induction m arbitrary: st)
  case Nil
  then show ?case by auto
next
  case (Cons e m)
  have 1: "fst (scan_step e st) = None \<longleftrightarrow> snd (scan_step e st) = None"
    using Cons.prems(1) by (auto simp: scan_step_def)
  have 2: "snd (scan_step e st) = None \<or> (\<exists>k. snd (scan_step e st) = Some k \<and> k \<in> K)"
    using Cons.prems(2,3) by (auto simp: scan_step_def)
  have 3: "snd (scan_step e st) \<noteq> None"
    using Cons.prems(1) by (cases "fst st") (auto simp: scan_step_def)
  show ?case
    using Cons.IH [OF 1 2] Cons.prems(3) 3 by simp
qed

text \<open>
  The eviction scan of a non-empty cache selects the first entry whose hitCount is least:
  the entries before it have strictly more hits, the entries after it at least as many.
\<close>

lemma scan_selects_first_least:
  assumes "m \<noteq> []"
  shows "\<exists>pre k e post. m = pre @ (k, e) # post
           \<and> fold scan_step m (None, None) = (Some (hitCount e), Some k)
           \<and> (\<forall>x\<in>set pre. hitCount e < hitCount (snd x))
           \<and> (\<forall>x\<in>set post. hitCount e \<le> hitCount (snd x))"
  using assms
proof (induction m rule: rev_induct)
  case Nil
  then show ?case by simp
next
  case (snoc x m)
  show ?case
  proof (cases "m = []")
    case True
    have "[x] = [] @ (fst x, snd x) # []"
      "fold scan_step [x] (None, None) = (Some (hitCount (snd x)), Some (fst x))"
      by (simp_all add: scan_step_def)
    with True show ?thesis
      by (metis append_Nil empty_iff list.set(1))
  next
    case False
    from snoc.IH [OF False] obtain pre k e post where ih:
      "m = pre @ (k, e) # post"
      "fold scan_step m (None, None) = (Some (hitCount e), Some k)"
      "\<forall>y\<in>set pre. hitCount e < hitCount (snd y)"
      "\<forall>y\<in>set post. hitCount e \<le> hitCount (snd y)"
      by blast
    show ?thesis
    proof (cases "hitCount (snd x) < hitCount e")
      case True
      have 1: "m @ [x] = m @ (fst x, snd x) # []" by simp
      have 2: "fold scan_step (m @ [x]) (None, None) = (Some (hitCount (snd x)), Some (fst x))"
        using True by (simp add: ih(2) scan_step_def)
      have 3: "\<forall>y\<in>set m. hitCount (snd x) < hitCount (snd y)"
        using True ih(1,3,4) by fastforce
      from 1 2 3 show ?thesis
        by (metis empty_iff list.set(1))
    next
      case False
      have 1: "m @ [x] = pre @ (k, e) # (post @ [x])" by (simp add: ih(1))
      have 2: "fold scan_step (m @ [x]) (None, None) = (Some (hitCount e), Some k)"
        using False by (simp add: ih(2) scan_step_def)
      have 3: "\<forall>y\<in>set (post @ [x]). hitCount e \<le> hitCount (snd y)"
        using False ih(4) by auto
      from 1 2 3 ih(3) show ?thesis
        by blast
    qed
  qed
qed

text \<open>
  Without the empty keyword among the keys, and with a capacity of at least one,
  \<^verbatim>\<open>set\<close> keeps the bound.
\<close>

lemma set_keeps_bound:
  assumes "length (cache sc) \<le> maxSize sc" and "0 < maxSize sc"
    and "[] \<notin> fst ` set (cache sc)"
  shows "length (cache (SearchCache_set sc k res)) \<le> maxSize sc"
proof -
  let ?ck = "trim (toLowerCase k)"
  consider (present) "Map_has (cache sc) ?ck"
    | (room) "\<not> Map_has (cache sc) ?ck" "length (cache sc) < maxSize sc"
    | (full) "\<not> Map_has (cache sc) ?ck" "length (cache sc) \<ge> maxSize sc"
    by linarith
  then show ?thesis
  proof cases
    case present
    then have "map_of (cache sc) ?ck \<noteq> None"
      by (simp add: Map_has_def split: option.splits)
    with present assms(1) show ?thesis
      by (simp add: SearchCache_set_def Let_def length_Map_set_present)
  next
    case room
    then show ?thesis
      using length_Map_set_le [of "cache sc" ?ck]
      by (simp add: SearchCache_set_def Let_def) (meson Suc_leI le_trans Suc_eq_plus1 order_refl)
  next
    case full
    with assms(2) have ne: "cache sc \<noteq> []" by auto
    obtain key where key: "snd (fold scan_step (cache sc) (None, None)) = Some key"
      "key \<in> fst ` set (cache sc)"
      using scan_finds_key [of "(None, None)" "fst ` set (cache sc)" "cache sc"] ne by auto
    with assms(3) have "key \<noteq> []" by metis
    have "length (Map_delete (cache sc) key) < length (cache sc)"
      using key(2) by (rule length_Map_delete)
    moreover have "length (Map_set (Map_delete (cache sc) key) ?ck
                             \<lparr>entry_results = Set_new res, hitCount = 0\<rparr>)
                     \<le> length (Map_delete (cache sc) key) + 1"
      by (rule length_Map_set_le)
    ultimately have "length (Map_set (Map_delete (cache sc) key) ?ck
                             \<lparr>entry_results = Set_new res, hitCount = 0\<rparr>) \<le> maxSize sc"
      using assms(1) by linarith
    moreover have "cache (SearchCache_set sc k res)
                     = Map_set (Map_delete (cache sc) key) ?ck
                         \<lparr>entry_results = Set_new res, hitCount = 0\<rparr>"
      using full key(1) \<open>key \<noteq> []\<close> by (simp add: SearchCache_set_def Let_def)
    ultimately show ?thesis
      by simp
  qed
qed

section \<open>Properties of incremental search\<close>

text \<open>
  C1, as stated, fails. After a search for "abcd" on the row with code "abcdef", the
  keyword "abcd" is a non-empty prefix of "abcde" and is cached.
  \<^verbatim>\<open>incrementalSearch('abcd', 'abcde')\<close> returns the row, with isIncremental true,
  because the code contains "abcde"; \<^verbatim>\<open>search('abcde')\<close> from the same state returns
  nothing, because the index holds no token of five characters other than whole values.
\<close>

theorem incremental_differs_from_search:
  "startsWith (trim (toLowerCase ''abcde'')) (trim (toLowerCase ''abcd''))
   \<and> trim (toLowerCase ''abcd'') \<noteq> []
   \<and> Map_has (cache (searchCache typed_abcd)) (trim (toLowerCase ''abcd''))
   \<and> fst (incrementalSearch es typed_abcd ''abcd'' ''abcde'')
       = Inr \<lparr>inc_results = [[(''code'', VStr ''abcdef'')]], inc_source = None, isIncremental = True\<rparr>
   \<and> fst (search typed_abcd ''abcde'') = \<lparr>results = [], source = ''index''\<rparr>"
  by code_simp

lemma startsWith_prefix: "startsWith s p \<longleftrightarrow> prefix p s"
  unfolding startsWith_def
  by (metis append_take_drop_id prefix_def append_eq_conv_conj)

lemma str_includes_sublist: "str_includes hay needle \<longleftrightarrow> sublist needle hay"
proof (induction hay)
  case Nil
  then show ?case by auto
next
  case (Cons c hay)
  show ?case
    by (simp add: Cons startsWith_prefix sublist_Cons_right)
qed

lemma trimmed_ends:
  assumes "trim s \<noteq> []"
  shows "\<not> is_ws (hd (trim s))" "\<not> is_ws (last (trim s))"
proof -
  define a where "a = dropWhile is_ws s"
  define b where "b = dropWhile is_ws (rev a)"
  have t: "trim s = rev b" by (simp add: trim_def a_def b_def)
  with assms have bne: "b \<noteq> []" by simp
  have hb: "\<not> is_ws (hd b)"
    using bne unfolding b_def by (metis hd_dropWhile)
  have "suffix b (rev a)" unfolding b_def by (rule suffix_dropWhile)
  then obtain c where "rev a = c @ b" by (auto simp: suffix_def)
  then have a: "a = rev b @ rev c" by (metis rev_append rev_rev_ident)
  with bne have "a \<noteq> []" "hd (rev b) = hd a" by simp_all
  moreover have "\<not> is_ws (hd a)"
    using \<open>a \<noteq> []\<close> unfolding a_def by (metis hd_dropWhile)
  ultimately show "\<not> is_ws (hd (trim s))" by (simp add: t)
  show "\<not> is_ws (last (trim s))"
    using hb bne by (simp add: t last_rev)
qed

lemma dropWhile_keeps_sublist:
  assumes "sublist k s" "k \<noteq> []" "\<not> P (hd k)"
  shows "sublist k (dropWhile P s)"
proof -
  from assms(1) obtain p q where s: "s = p @ k @ q" by (auto simp: sublist_def)
  have "dropWhile P (k @ q) = k @ q"
    using assms(2,3) by (cases k) simp_all
  then have "dropWhile P s = (if \<forall>x\<in>set p. P x then k @ q else dropWhile P p @ k @ q)"
    by (simp add: s dropWhile_append)
  then show ?thesis
    by (metis sublist_appendI append_Nil)
qed

lemma sublist_rev_iff: "sublist (rev k) (rev s) \<longleftrightarrow> sublist k s"
  by (rule sublist_rev)

lemma trim_keeps_sublist:
  assumes "sublist k s" "k \<noteq> []" "\<not> is_ws (hd k)" "\<not> is_ws (last k)"
  shows "sublist k (trim s)"
proof -
  have 1: "sublist k (dropWhile is_ws s)"
    using assms(1,2,3) by (rule dropWhile_keeps_sublist)
  then have "sublist (rev k) (rev (dropWhile is_ws s))"
    by (simp add: sublist_rev_iff)
  moreover have "rev k \<noteq> []" "\<not> is_ws (hd (rev k))"
    using assms(2,4) by (simp_all add: hd_rev)
  ultimately have "sublist (rev k) (dropWhile is_ws (rev (dropWhile is_ws s)))"
    by (intro dropWhile_keeps_sublist)
  then have "sublist (rev (rev k)) (rev (dropWhile is_ws (rev (dropWhile is_ws s))))"
    by (simp only: sublist_rev_iff)
  then show ?thesis by (simp add: trim_def)
qed

lemma trimmed_sublist_iff:
  assumes "trim k \<noteq> []"
  shows "sublist (trim k) (trim s) \<longleftrightarrow> sublist (trim k) s"
proof
  assume "sublist (trim k) (trim s)"
  then show "sublist (trim k) s"
    using sublist_trim by (meson sublist_order.order_trans)
next
  assume "sublist (trim k) s"
  then show "sublist (trim k) (trim s)"
    using assms trimmed_ends [OF assms] by (intro trim_keeps_sublist)
qed

lemma rowContains_Some:
  "rowContains B cols (Some r) kw
     = Inr (list_ex (\<lambda>col. str_includes (toLowerCase (ToString B (or_empty (row_get r (key col))))) kw)
              cols)"
  by (cases cols) (simp_all add: rowContains_def)

lemma rescan_in_range:
  assumes "\<forall>i\<in>set xs. i < length (data so)"
  shows "\<exists>ys. rescan B so kw xs acc = Inr ys
           \<and> set ys = set acc
               \<union> {i \<in> set xs.
                    list_ex (\<lambda>col. str_includes
                               (toLowerCase (ToString B (or_empty (row_get (data so ! i) (key col))))) kw)
                      (columns so)}"
  using assms
proof (induction xs arbitrary: acc)
  case Nil
  then show ?case by simp
next
  case (Cons x xs)
  then have x: "x < length (data so)" and xs: "\<forall>i\<in>set xs. i < length (data so)"
    by simp_all
  let ?b = "list_ex (\<lambda>col. str_includes
                       (toLowerCase (ToString B (or_empty (row_get (data so ! x) (key col))))) kw)
              (columns so)"
  from Cons.IH [OF xs, of "if ?b then Set_add x acc else acc"]
  obtain ys where ys: "rescan B so kw xs (if ?b then Set_add x acc else acc) = Inr ys"
    "set ys = set (if ?b then Set_add x acc else acc)
               \<union> {i \<in> set xs.
                    list_ex (\<lambda>col. str_includes
                               (toLowerCase (ToString B (or_empty (row_get (data so ! i) (key col))))) kw)
                      (columns so)}"
    by blast
  have "rescan B so kw (x # xs) acc = Inr ys"
    using x ys(1) by (simp add: rowContains_Some)
  moreover have "set ys = set acc
               \<union> {i \<in> set (x # xs).
                    list_ex (\<lambda>col. str_includes
                               (toLowerCase (ToString B (or_empty (row_get (data so ! i) (key col))))) kw)
                      (columns so)}"
    using ys(2) by auto
  ultimately show ?case by blast
qed

lemma contains_iff_token:
  assumes "trim k \<noteq> []" "length (trim k) \<le> 4"
  shows "str_includes (toLowerCase (ToString B (or_empty (row_get r (key col))))) (trim k)
         \<longleftrightarrow> trim k \<in> set (tokenize (indexed_value B r col))"
proof -
  have "str_includes (toLowerCase (ToString B (or_empty (row_get r (key col))))) (trim k)
        \<longleftrightarrow> sublist (trim k) (indexed_value B r col)"
    unfolding indexed_value_def str_includes_sublist
    using trimmed_sublist_iff [OF assms(1)] by simp
  also have "\<dots> \<longleftrightarrow> trim k \<in> set (tokenize (indexed_value B r col))"
    using assms tokenize_sound(2) tokenize_complete by blast
  finally show ?thesis .
qed

lemma prefix_token:
  assumes "k2 \<in> set (tokenize v)" "prefix k1 k2" "k1 \<noteq> []" "length k2 \<le> 4"
  shows "k1 \<in> set (tokenize v)"
proof -
  have "sublist k1 v"
    using assms(1,2) tokenize_sound(2) by (meson prefix_imp_sublist sublist_order.order_trans)
  moreover have "length k1 \<le> 4"
    using assms(2,4) prefix_length_le by fastforce
  ultimately show ?thesis
    using assms(3) by (intro tokenize_complete) simp_all
qed

lemma set_search_results:
  assumes "case Map_get (cache (searchCache so)) (trim (toLowerCase k)) of
             None \<Rightarrow> True
           | Some e \<Rightarrow> set (entry_results e) = set (InvertedIndexBuilder_search (indexBuilder so) k)"
  shows "set (results (fst (search so k)))
           = set (indexToResults so (InvertedIndexBuilder_search (indexBuilder so) k))"
proof (cases "Map_get (cache (searchCache so)) (trim (toLowerCase k))")
  case None
  then show ?thesis by (simp add: search_miss(1))
next
  case (Some e)
  with assms show ?thesis by (simp add: search_hit(1) indexToResults_def)
qed

text \<open>
  C1, amended. Let the index be the one built from the optimizer's data and columns, let
  the normalized k1 be a non-empty prefix of the normalized k2, let the cache hold for k1
  the rows the index gives for k1, and let k2 be either not cached or cached with the rows
  the index gives for it. If the normalized k2 has at most four characters, then
  \<^verbatim>\<open>incrementalSearch(k1, k2)\<close> returns, with isIncremental true, the same set of rows as
  \<^verbatim>\<open>search(k2)\<close>.
\<close>

theorem incremental_agrees_up_to_four:
  assumes idx: "indexBuilder so = InvertedIndexBuilder_build B (data so) (columns so)"
    and k1: "trim (toLowerCase k1) \<noteq> []"
    and pre: "startsWith (trim (toLowerCase k2)) (trim (toLowerCase k1))"
    and cached: "Map_get (cache (searchCache so)) (trim (toLowerCase k1)) = Some e"
    and ce: "set (entry_results e) = set (InvertedIndexBuilder_search (indexBuilder so) k1)"
    and c2: "case Map_get (cache (searchCache so)) (trim (toLowerCase k2)) of
               None \<Rightarrow> True
             | Some e2 \<Rightarrow>
                 set (entry_results e2) = set (InvertedIndexBuilder_search (indexBuilder so) k2)"
    and short: "length (trim (toLowerCase k2)) \<le> 4"
  shows "\<exists>r. fst (incrementalSearch B so k1 k2) = Inr r \<and> isIncremental r
           \<and> set (inc_results r) = set (results (fst (search so k2)))"
proof -
  let ?c1 = "trim (toLowerCase k1)" and ?c2 = "trim (toLowerCase k2)"
  let ?has = "\<lambda>i k. \<exists>col\<in>set (columns so). k \<in> set (tokenize (indexed_value B (data so ! i) col))"
  have p: "prefix ?c1 ?c2" using pre by (simp add: startsWith_prefix)
  with k1 have k2: "?c2 \<noteq> []" by auto
  have rows1: "set (entry_results e) = {i. i < length (data so) \<and> ?has i ?c1}"
    using k1 by (simp add: ce search_token_rows idx token_rows_build)
  have rows2: "set (InvertedIndexBuilder_search (indexBuilder so) k2)
                 = {i. i < length (data so) \<and> ?has i ?c2}"
    using k2 by (simp add: search_token_rows idx token_rows_build)
  from rows1 have "\<forall>i\<in>set (entry_results e). i < length (data so)" by simp
  from rescan_in_range [OF this, of B ?c2 "[]"]
  obtain ys where ys: "rescan B so ?c2 (entry_results e) [] = Inr ys"
    "set ys = {i \<in> set (entry_results e).
                 list_ex (\<lambda>col. str_includes
                            (toLowerCase (ToString B (or_empty (row_get (data so ! i) (key col))))) ?c2)
                   (columns so)}"
    by auto
  have "set ys = {i \<in> set (entry_results e). ?has i ?c2}"
    unfolding ys(2) list_ex_iff by (simp add: contains_iff_token [OF k2 short])
  also have "\<dots> = {i. i < length (data so) \<and> ?has i ?c2}"
    using rows1 prefix_token [OF _ p k1 short] by blast
  finally have sy: "set ys = set (InvertedIndexBuilder_search (indexBuilder so) k2)"
    using rows2 by simp
  have "fst (incrementalSearch B so k1 k2)
          = Inr \<lparr>inc_results = indexToResults so ys, inc_source = None, isIncremental = True\<rparr>"
    using pre k1 cached ys(1) by (simp add: incrementalSearch_def Let_def SearchCache_get_def)
  then show ?thesis
    using sy set_search_results [OF c2] by (simp add: indexToResults_def)
qed

theorem incremental_agrees_up_to_four_witness:
  "indexBuilder searched_A = InvertedIndexBuilder_build es (data searched_A) (columns searched_A)
   \<and> trim (toLowerCase ''A'') \<noteq> []
   \<and> startsWith (trim (toLowerCase ''A1'')) (trim (toLowerCase ''A''))
   \<and> Map_get (cache (searchCache searched_A)) (trim (toLowerCase ''A''))
       = Some \<lparr>entry_results = [0, 1], hitCount = 0\<rparr>
   \<and> InvertedIndexBuilder_search (indexBuilder searched_A) ''A'' = [0, 1]
   \<and> Map_get (cache (searchCache searched_A)) (trim (toLowerCase ''A1'')) = None
   \<and> length (trim (toLowerCase ''A1'')) \<le> 4
   \<and> fst (incrementalSearch es searched_A ''A'' ''A1'')
       = Inr \<lparr>inc_results = [scenario_rows ! 0], inc_source = None, isIncremental = True\<rparr>
   \<and> results (fst (search searched_A ''A1'')) = [scenario_rows ! 0]"
proof -
  have h1: "indexBuilder searched_A
              = InvertedIndexBuilder_build es (data searched_A) (columns searched_A)"
    by (simp add: searched_A_def search_keeps scenario_optimizer_def initialize_def)
  have h2: "trim (toLowerCase ''A'') \<noteq> []"
    by code_simp
  have h3: "startsWith (trim (toLowerCase ''A1'')) (trim (toLowerCase ''A''))"
    by code_simp
  have h4: "Map_get (cache (searchCache searched_A)) (trim (toLowerCase ''A''))
              = Some \<lparr>entry_results = [0, 1], hitCount = 0\<rparr>"
    by code_simp
  have h5: "InvertedIndexBuilder_search (indexBuilder searched_A) ''A'' = [0, 1]"
    by code_simp
  have h6: "Map_get (cache (searchCache searched_A)) (trim (toLowerCase ''A1'')) = None"
    by code_simp
  have h7: "length (trim (toLowerCase ''A1'')) \<le> 4"
    by code_simp
  have r1: "fst (incrementalSearch es searched_A ''A'' ''A1'')
       = Inr \<lparr>inc_results = [scenario_rows ! 0], inc_source = None, isIncremental = True\<rparr>"
    by code_simp
  have r2: "results (fst (search searched_A ''A1'')) = [scenario_rows ! 0]"
    by code_simp
  from incremental_agrees_up_to_four [OF h1 h2 h3 h4 _ _ h7] h5 h6
  have "\<exists>r. fst (incrementalSearch es searched_A ''A'' ''A1'') = Inr r \<and> isIncremental r
           \<and> set (inc_results r) = set (results (fst (search searched_A ''A1'')))"
    by simp
  with h1 h2 h3 h4 h5 h6 h7 r1 r2 show ?thesis
    by blast
qed

section \<open>Properties of the advanced filter\<close>

lemma fold_filter_id:
  assumes "\<And>x a. \<not> P x \<Longrightarrow> f x a = a"
  shows "fold f xs a = fold f (filter P xs) a"
  by (induction xs arbitrary: a) (auto simp: assms)

lemma conditions_apply_calls:
  "conditions (compositeFilter (fold apply_call cs af))
     = fold (\<lambda>c xs. case c of AddCondition f op v \<Rightarrow> xs @ [FilterCondition_new f op v] | _ \<Rightarrow> xs)
         cs (conditions (compositeFilter af))"
proof (induction cs arbitrary: af)
  case Nil
  then show ?case by simp
next
  case (Cons c cs)
  show ?case
    by (cases c)
      (simp_all add: Cons addCondition_def addColumnFilter_def addDateRange_def addNumericRange_def
        CompositeFilter_addCondition_def split: jsval.splits)
qed

lemma columnFilters_apply_calls:
  "columnFilters (fold apply_call cs af)
     = fold (\<lambda>c m. case c of
                AddColumnFilter f vals \<Rightarrow>
                  (case vals of VArr a xs \<Rightarrow> if length xs > 0 then Map_set m f xs else m | _ \<Rightarrow> m)
              | _ \<Rightarrow> m)
         cs (columnFilters af)"
proof (induction cs arbitrary: af)
  case Nil
  then show ?case by simp
next
  case (Cons c cs)
  show ?case
    by (cases c)
      (simp_all add: Cons addCondition_def addColumnFilter_def addDateRange_def addNumericRange_def
        split: jsval.splits)
qed

lemma dateRanges_apply_calls:
  "dateRanges (fold apply_call cs af)
     = fold (\<lambda>c m. case c of AddDateRange f s e \<Rightarrow> Map_set m f (s, e) | _ \<Rightarrow> m)
         cs (dateRanges af)"
proof (induction cs arbitrary: af)
  case Nil
  then show ?case by simp
next
  case (Cons c cs)
  show ?case
    by (cases c)
      (simp_all add: Cons addCondition_def addColumnFilter_def addDateRange_def addNumericRange_def
        split: jsval.splits)
qed

lemma numericRanges_apply_calls:
  "numericRanges (fold apply_call cs af)
     = fold (\<lambda>c m. case c of AddNumericRange f mn mx \<Rightarrow> Map_set m f (mn, mx) | _ \<Rightarrow> m)
         cs (numericRanges af)"
proof (induction cs arbitrary: af)
  case Nil
  then show ?case by simp
next
  case (Cons c cs)
  show ?case
    by (cases c)
      (simp_all add: Cons addCondition_def addColumnFilter_def addDateRange_def addNumericRange_def
        split: jsval.splits)
qed

lemma conditions_kind:
  "filter is_AddCondition cs1 = filter is_AddCondition cs2 \<Longrightarrow>
   conditions (compositeFilter (fold apply_call cs1 af))
     = conditions (compositeFilter (fold apply_call cs2 af))"
  unfolding conditions_apply_calls
  by (subst (1 2) fold_filter_id [where P = is_AddCondition])
     (auto split: add_call.splits)

lemma columnFilters_kind:
  "filter is_AddColumnFilter cs1 = filter is_AddColumnFilter cs2 \<Longrightarrow>
   columnFilters (fold apply_call cs1 af) = columnFilters (fold apply_call cs2 af)"
  unfolding columnFilters_apply_calls
  by (subst (1 2) fold_filter_id [where P = is_AddColumnFilter])
     (auto split: add_call.splits)

lemma dateRanges_kind:
  "filter is_AddDateRange cs1 = filter is_AddDateRange cs2 \<Longrightarrow>
   dateRanges (fold apply_call cs1 af) = dateRanges (fold apply_call cs2 af)"
  unfolding dateRanges_apply_calls
  by (subst (1 2) fold_filter_id [where P = is_AddDateRange])
     (auto split: add_call.splits)

lemma numericRanges_kind:
  "filter is_AddNumericRange cs1 = filter is_AddNumericRange cs2 \<Longrightarrow>
   numericRanges (fold apply_call cs1 af) = numericRanges (fold apply_call cs2 af)"
  unfolding numericRanges_apply_calls
  by (subst (1 2) fold_filter_id [where P = is_AddNumericRange])
     (auto split: add_call.splits)

lemma key_cong:
  "conditions (compositeFilter af') = conditions (compositeFilter af) \<Longrightarrow>
   columnFilters af' = columnFilters af \<Longrightarrow> dateRanges af' = dateRanges af \<Longrightarrow>
   numericRanges af' = numericRanges af \<Longrightarrow>
   generateCacheKey B af' = generateCacheKey B af"
  by (simp add: generateCacheKey_def)

lemma matches_conditions:
  "conditions (snd (CompositeFilter_matches B cf r)) = conditions cf"
  by (simp add: CompositeFilter_matches_def Let_def split: sum.splits)

lemma filter_composite_conditions:
  "conditions (snd (filter_composite B cf rows)) = conditions cf"
proof (induction rows arbitrary: cf)
  case Nil
  then show ?case by simp
next
  case (Cons r rows)
  have "conditions (snd (filter_composite B (snd (CompositeFilter_matches B cf r)) rows)) = conditions cf"
    by (simp add: Cons matches_conditions)
  moreover have "conditions (snd (CompositeFilter_matches B cf r)) = conditions cf"
    by (rule matches_conditions)
  ultimately show ?case
    by (auto split: prod.splits sum.splits)
qed

lemma Map_set_absent: "map_of m k = None \<Longrightarrow> Map_set m k v = m @ [(k, v)]"
  by (induction m) (auto split: if_splits)

lemma map_of_Map_delete: "k \<noteq> k' \<Longrightarrow> map_of (Map_delete m k') k = map_of m k"
  by (induction m) (auto simp: Map_delete_def)

lemma evict_oldest_keeps:
  assumes "map_of m k = None"
  shows "Map_get (let fr1 = Map_set m k v in
                  if length fr1 > 20 then Map_delete fr1 (fst (hd fr1)) else fr1) k = Some v"
proof (cases "length (Map_set m k v) > 20")
  case False
  then show ?thesis
    by (simp add: Map_get_def Let_def map_of_Map_set)
next
  case True
  have app: "Map_set m k v = m @ [(k, v)]"
    using assms by (rule Map_set_absent)
  with True have "m \<noteq> []" by auto
  then have "hd (Map_set m k v) = hd m" "hd m \<in> set m"
    using app by simp_all
  moreover have "fst e \<noteq> k" if "e \<in> set m" for e
    using that assms by (metis map_of_eq_None_iff image_eqI)
  ultimately have "k \<noteq> fst (hd (Map_set m k v))"
    by metis
  then have "map_of (Map_delete (Map_set m k v) (fst (hd (Map_set m k v)))) k = Some v"
    by (simp add: map_of_Map_delete map_of_Map_set)
  with True show ?thesis
    by (simp add: Map_get_def Let_def)
qed

lemma filter_key_unchanged:
  "generateCacheKey B (snd (AdvancedFilter_filter B af rows)) = generateCacheKey B af"
proof -
  have "conditions (compositeFilter (snd (AdvancedFilter_filter B af rows)))
          = conditions (compositeFilter af)
        \<and> columnFilters (snd (AdvancedFilter_filter B af rows)) = columnFilters af
        \<and> dateRanges (snd (AdvancedFilter_filter B af rows)) = dateRanges af
        \<and> numericRanges (snd (AdvancedFilter_filter B af rows)) = numericRanges af"
    using filter_composite_conditions [of B "compositeFilter af" rows]
    by (auto simp: AdvancedFilter_filter_def Let_def split: option.splits prod.splits sum.splits)
  then show ?thesis
    by (intro key_cong) simp_all
qed

lemma filter_caches:
  assumes "fst (AdvancedFilter_filter B af rows) = Inr res"
  shows "Map_get (filterResults (snd (AdvancedFilter_filter B af rows))) (generateCacheKey B af)
          = Some res"
proof (cases "Map_get (filterResults af) (generateCacheKey B af)")
  case (Some cached)
  with assms show ?thesis
    by (simp add: AdvancedFilter_filter_def Let_def)
next
  case None
  then have n: "map_of (filterResults af) (generateCacheKey B af) = None"
    by (simp add: Map_get_def)
  note e = evict_oldest_keeps [OF n, unfolded Let_def]
  from assms None show ?thesis
    by (auto simp: AdvancedFilter_filter_def Let_def e split: prod.splits sum.splits if_splits)
qed

lemma filter_again:
  assumes "fst (AdvancedFilter_filter B af rows) = Inr res"
  shows "AdvancedFilter_filter B (snd (AdvancedFilter_filter B af rows)) rows'
           = (Inr res, (snd (AdvancedFilter_filter B af rows))
                \<lparr>filterCacheHits := filterCacheHits (snd (AdvancedFilter_filter B af rows)) + 1\<rparr>)"
  using filter_caches [OF assms] filter_key_unchanged [of B af rows]
  by (simp add: AdvancedFilter_filter_def [of B "snd (AdvancedFilter_filter B af rows)"] Let_def)

text \<open>
  C2, as stated, fails: the key lists the constraints in insertion order. Two filters
  with the same two numeric ranges, added in opposite orders, get different keys.
\<close>

theorem cache_key_order_counterexample:
  "set (numericRanges (apply_calls [AddNumericRange ''points'' (VNum (Fin 100)) (VNum (Fin 150)),
                              AddNumericRange ''age'' (VNum (Fin 1)) (VNum (Fin 2))] AdvancedFilter_new))
    = set (numericRanges (apply_calls [AddNumericRange ''age'' (VNum (Fin 1)) (VNum (Fin 2)),
           AddNumericRange ''points'' (VNum (Fin 100)) (VNum (Fin 150))] AdvancedFilter_new))
  \<and> generateCacheKey es (apply_calls [AddNumericRange ''points'' (VNum (Fin 100)) (VNum (Fin 150)),
                              AddNumericRange ''age'' (VNum (Fin 1)) (VNum (Fin 2))] AdvancedFilter_new)
     = ''points:numeric:100-150|age:numeric:1-2''
  \<and> generateCacheKey es (apply_calls [AddNumericRange ''age'' (VNum (Fin 1)) (VNum (Fin 2)),
           AddNumericRange ''points'' (VNum (Fin 100)) (VNum (Fin 150))] AdvancedFilter_new)
     = ''age:numeric:1-2|points:numeric:100-150''"
  by code_simp


text \<open>
  C2, amended. The key is built from the four collections in a fixed order, each in its
  insertion order. So two sequences of calls of the adding methods, applied to the same
  filter, give the same key whenever their calls of each kind are the same and in the
  same order; how calls of different kinds are interleaved does not matter. And a
  \<^verbatim>\<open>filter\<close> call that returned is followed, with no change in between, by a call
  served from the cache: it returns the first call's result, whatever rows it is given,
  and only counts a cache hit.
\<close>

theorem cache_key_and_second_call:
  "(filter is_AddCondition cs1 = filter is_AddCondition cs2
      \<and> filter is_AddColumnFilter cs1 = filter is_AddColumnFilter cs2
      \<and> filter is_AddDateRange cs1 = filter is_AddDateRange cs2
      \<and> filter is_AddNumericRange cs1 = filter is_AddNumericRange cs2
      \<longrightarrow> generateCacheKey B (apply_calls cs1 af) = generateCacheKey B (apply_calls cs2 af))
   \<and> (fst (AdvancedFilter_filter B af rows) = Inr res
      \<longrightarrow> AdvancedFilter_filter B (snd (AdvancedFilter_filter B af rows)) rows'
          = (Inr res, (snd (AdvancedFilter_filter B af rows))
               \<lparr>filterCacheHits := filterCacheHits (snd (AdvancedFilter_filter B af rows)) + 1\<rparr>))"
proof (intro conjI impI)
  assume "filter is_AddCondition cs1 = filter is_AddCondition cs2
      \<and> filter is_AddColumnFilter cs1 = filter is_AddColumnFilter cs2
      \<and> filter is_AddDateRange cs1 = filter is_AddDateRange cs2
      \<and> filter is_AddNumericRange cs1 = filter is_AddNumericRange cs2"
  then show "generateCacheKey B (apply_calls cs1 af) = generateCacheKey B (apply_calls cs2 af)"
    unfolding apply_calls_def
    by (intro key_cong conditions_kind columnFilters_kind dateRanges_kind numericRanges_kind)
      simp_all
next
  assume "fst (AdvancedFilter_filter B af rows) = Inr res"
  then show "AdvancedFilter_filter B (snd (AdvancedFilter_filter B af rows)) rows'
          = (Inr res, (snd (AdvancedFilter_filter B af rows))
               \<lparr>filterCacheHits := filterCacheHits (snd (AdvancedFilter_filter B af rows)) + 1\<rparr>)"
    by (rule filter_again)
qed

theorem cache_key_and_second_call_witness:
  "filter is_AddCondition calls_a = filter is_AddCondition calls_b
   \<and> filter is_AddColumnFilter calls_a = filter is_AddColumnFilter calls_b
   \<and> filter is_AddDateRange calls_a = filter is_AddDateRange calls_b
   \<and> filter is_AddNumericRange calls_a = filter is_AddNumericRange calls_b
   \<and> calls_a \<noteq> calls_b
   \<and> generateCacheKey es (apply_calls calls_a AdvancedFilter_new)
       = generateCacheKey es (apply_calls calls_b AdvancedFilter_new)
   \<and> fst (AdvancedFilter_filter es (apply_calls calls_a AdvancedFilter_new) scenario_rows)
       = Inr \<lparr>fr_results = [scenario_rows ! 0], fr_count = 1\<rparr>
   \<and> fst (AdvancedFilter_filter es
            (snd (AdvancedFilter_filter es (apply_calls calls_a AdvancedFilter_new) scenario_rows)) [])
       = Inr \<lparr>fr_results = [scenario_rows ! 0], fr_count = 1\<rparr>"
proof -
  have k: "filter is_AddCondition calls_a = filter is_AddCondition calls_b
   \<and> filter is_AddColumnFilter calls_a = filter is_AddColumnFilter calls_b
   \<and> filter is_AddDateRange calls_a = filter is_AddDateRange calls_b
   \<and> filter is_AddNumericRange calls_a = filter is_AddNumericRange calls_b"
    by (simp add: calls_a_def calls_b_def)
  have n: "calls_a \<noteq> calls_b"
    by (simp add: calls_a_def calls_b_def)
  have f: "fst (AdvancedFilter_filter es (apply_calls calls_a AdvancedFilter_new) scenario_rows)
       = Inr \<lparr>fr_results = [scenario_rows ! 0], fr_count = 1\<rparr>"
    by code_simp
  from cache_key_and_second_call [of calls_a calls_b es AdvancedFilter_new] k
  have e: "generateCacheKey es (apply_calls calls_a AdvancedFilter_new)
       = generateCacheKey es (apply_calls calls_b AdvancedFilter_new)"
    by blast
  from cache_key_and_second_call
         [of _ _ es "apply_calls calls_a AdvancedFilter_new" scenario_rows
             "\<lparr>fr_results = [scenario_rows ! 0], fr_count = 1\<rparr>" "[]"] f
  have s: "fst (AdvancedFilter_filter es
            (snd (AdvancedFilter_filter es (apply_calls calls_a AdvancedFilter_new) scenario_rows)) [])
       = Inr \<lparr>fr_results = [scenario_rows ! 0], fr_count = 1\<rparr>"
    by simp
  from k n f e s show ?thesis
    by blast
qed

end
